theory Spec2Isabelle
  imports Main "HOL-Library.Multiset"
begin

section \<open>The binding entity (models/se\_binding.py)\<close>

text \<open>
  The selection field \<open>sync_state\<close> of \<open>se.binding\<close> and the stored fields of one row.
  \<open>se_backend_id\<close> is a related field (\<open>index_id.backend_id\<close>) and is therefore not stored
  in the row; \<open>data_display\<close> is a computed rendering of \<open>data\<close> and is left out.
  Ids of records (bindings, indexes, backends) are natural numbers, dates are day numbers,
  and the serialized document is kept abstract (\<open>'d\<close>); a null \<open>data\<close> is \<open>None\<close>.
\<close>

datatype sync_state = New | To_update | Scheduled | Done | To_be_checked

record 'd binding =
  index_id :: nat
  sync_state :: sync_state
  date_modified :: "nat option"
  date_syncronized :: "nat option"
  data :: "'d option"
  active :: bool

text \<open>
  The dictionary \<open>vals\<close> handed to \<open>write\<close>: one optional entry per field, \<open>None\<close> when the
  key is absent from the dictionary.
\<close>

record 'd vals =
  v_index_id :: "nat option"
  v_sync_state :: "sync_state option"
  v_date_modified :: "nat option option"
  v_date_syncronized :: "nat option option"
  v_data :: "'d option option"
  v_active :: "bool option"

definition no_vals :: "'d vals" where
  "no_vals = \<lparr>v_index_id = None, v_sync_state = None, v_date_modified = None,
     v_date_syncronized = None, v_data = None, v_active = None\<rparr>"

text \<open>
  The database as this module sees it: the table of bindings by id, and the trace of the
  calls of the framework's own \<open>write\<close> (recordset and dictionary of every call, oldest
  first), which is what the statements about "a write" and "a single write" refer to.
\<close>

record 'd env =
  table :: "nat \<rightharpoonup> 'd binding"
  writes :: "(nat list \<times> 'd vals) list"

datatype error = UserError string | ValueError

section \<open>The framework's recordset operations\<close>

text \<open>
  A recordset is the list of its ids, read against the table at the moment of the call.
  The operations below act on the rows that exist: an id without a row contributes nothing
  (the framework's own error for a stale id lies outside this module, and the theorems speak
  about recordsets whose ids have rows).
\<close>

definition exists_rs :: "(nat \<rightharpoonup> 'd binding) \<Rightarrow> nat list \<Rightarrow> nat list" where
  "exists_rs tbl self = filter (\<lambda>i. tbl i \<noteq> None) self"

definition filtered :: "('d binding \<Rightarrow> bool) \<Rightarrow> (nat \<rightharpoonup> 'd binding) \<Rightarrow> nat list \<Rightarrow> nat list" where
  "filtered p tbl self = filter (\<lambda>i. case tbl i of None \<Rightarrow> False | Some b \<Rightarrow> p b) self"

text \<open>\<open>unique\<close> keeps the first occurrence of every element, as the recordset returned by
  \<open>mapped\<close> on a many2one field does.\<close>

definition unique :: "'a list \<Rightarrow> 'a list" where
  "unique xs = rev (remdups (rev xs))"

definition mapped :: "('d binding \<Rightarrow> nat) \<Rightarrow> (nat \<rightharpoonup> 'd binding) \<Rightarrow> nat list \<Rightarrow> nat list" where
  "mapped f tbl self = unique (List.map_filter (\<lambda>i. map_option f (tbl i)) self)"

text \<open>Recordset difference \<open>self - other\<close>.\<close>

definition minus_rs :: "nat list \<Rightarrow> nat list \<Rightarrow> nat list" where
  "minus_rs self other = filter (\<lambda>i. i \<notin> set other) self"

definition apply_vals :: "'d vals \<Rightarrow> 'd binding \<Rightarrow> 'd binding" where
  "apply_vals v b =
     \<lparr>index_id = (case v_index_id v of None \<Rightarrow> index_id b | Some x \<Rightarrow> x),
      sync_state = (case v_sync_state v of None \<Rightarrow> sync_state b | Some x \<Rightarrow> x),
      date_modified = (case v_date_modified v of None \<Rightarrow> date_modified b | Some x \<Rightarrow> x),
      date_syncronized = (case v_date_syncronized v of None \<Rightarrow> date_syncronized b | Some x \<Rightarrow> x),
      data = (case v_data v of None \<Rightarrow> data b | Some x \<Rightarrow> x),
      active = (case v_active v of None \<Rightarrow> active b | Some x \<Rightarrow> x)\<rparr>"

text \<open>The inherited \<open>write\<close> (\<open>super().write(vals)\<close>): every row of the recordset takes the
  values of the dictionary, and the call is recorded.\<close>

definition orm_write :: "nat list \<Rightarrow> 'd vals \<Rightarrow> 'd env \<Rightarrow> 'd env" where
  "orm_write self v env =
     env\<lparr>table := (\<lambda>i. if i \<in> set self then map_option (apply_vals v) (table env i)
                         else table env i),
         writes := writes env @ [(self, v)]\<rparr>"

text \<open>The inherited \<open>unlink\<close> (\<open>super().unlink()\<close>): the rows of the recordset are removed.\<close>

definition orm_unlink :: "nat list \<Rightarrow> 'd env \<Rightarrow> 'd env" where
  "orm_unlink self env =
     env\<lparr>table := (\<lambda>i. if i \<in> set self then None else table env i)\<rparr>"

section \<open>The methods of the binding\<close>

subsection \<open>\<open>get_export_data\<close>\<close>

text \<open>
  \<open>return self.data\<close>: the field read of a recordset. The empty recordset reads as null, a
  recordset of one record gives the stored document, and a larger one is refused by the
  framework (expected singleton). The environment is returned as it was received.
\<close>

definition get_export_data :: "nat list \<Rightarrow> 'd env \<Rightarrow> (error + 'd option) \<times> 'd env" where
  "get_export_data self env =
     (case self of
        [] \<Rightarrow> (Inr None, env)
      | [i] \<Rightarrow> (Inr (case table env i of None \<Rightarrow> None | Some b \<Rightarrow> data b), env)
      | _ \<Rightarrow> (Inl ValueError, env))"

subsection \<open>\<open>write\<close>\<close>

text \<open>
  The method \<open>write\<close> of the binding, named \<open>write_binding\<close> here.
  \<open>not_new\<close> starts as the empty recordset \<open>self.browse()\<close>. When the dictionary has the key
  \<open>active\<close> with a false value, the records whose state is not \<open>new\<close> are written with a
  copy of the dictionary in which \<open>sync_state\<close> is \<open>to_update\<close>; the remaining records
  (\<open>self - not_new\<close>) are written with the dictionary as given.
\<close>

definition write_binding :: "nat list \<Rightarrow> 'd vals \<Rightarrow> 'd env \<Rightarrow> 'd env" where
  "write_binding self vals env =
     (if v_active vals = Some False then
        (let not_new = filtered (\<lambda>x. sync_state x \<noteq> New) (table env) self;
             new_vals = vals\<lparr>v_sync_state := Some To_update\<rparr>;
             env1 = orm_write not_new new_vals env
         in orm_write (minus_rs self not_new) vals env1)
      else orm_write (minus_rs self []) vals env)"

subsection \<open>Collaborators outside the module\<close>

text \<open>
  What the methods below take from the rest of the system, as parameters: the backend of an
  index (\<open>se.index.backend_id\<close>, which \<open>se_backend_id\<close> relates to), the specific backend
  of a backend, the language code of an index (\<open>None\<close> when the index has no language), the
  computed \<open>display_name\<close> of a binding, the name of the concrete model, and the components
  looked up on a work context: the export mapper (\<open>map_record(binding).values()\<close>, which
  sees the work context, the language of the context, and the binding with its current
  row), the validator of the collection (an error text, or nothing), and the \<open>run\<close> of the
  exporter and of the deleter, which act on the environment.
\<close>

record work =
  work_collection :: nat
  work_records :: "nat list"
  work_index :: nat

record 'd collaborators =
  backend_id :: "nat \<Rightarrow> nat"
  specific_backend :: "nat \<Rightarrow> nat"
  lang_code :: "nat \<Rightarrow> string option"
  display_name :: "nat \<Rightarrow> 'd binding \<Rightarrow> string"
  model_name :: string
  mapper_map_record :: "work \<Rightarrow> string option \<Rightarrow> nat \<Rightarrow> 'd binding \<Rightarrow> 'd"
  collection_validate_record :: "nat \<Rightarrow> 'd \<Rightarrow> string option"
  exporter_run :: "work \<Rightarrow> 'd env \<Rightarrow> 'd env"
  deleter_run :: "work \<Rightarrow> 'd env \<Rightarrow> 'd env"

definition se_backend_id :: "'d collaborators \<Rightarrow> 'd binding \<Rightarrow> nat" where
  "se_backend_id C b = backend_id C (index_id b)"

subsection \<open>Text of messages and reports\<close>

text \<open>Decimal digits of a number, the join of Python's \<open>str.join\<close>, the \<open>str\<close> of a list
  of ids (\<open>[1, 2]\<close>) and the \<open>str\<close> of a recordset of one binding (\<open>model(7,)\<close>). The
  translation function \<open>_\<close> is taken in the source language.\<close>

fun string_of_nat :: "nat \<Rightarrow> string" where
  "string_of_nat n =
     (if n < 10 then [''0123456789'' ! n]
      else string_of_nat (n div 10) @ [''0123456789'' ! (n mod 10)])"

fun join :: "string \<Rightarrow> string list \<Rightarrow> string" where
  "join sep [] = []"
| "join sep [x] = x"
| "join sep (x # y # ys) = x @ sep @ join sep (y # ys)"

definition str_ids :: "nat list \<Rightarrow> string" where
  "str_ids ids = ''['' @ join '', '' (map string_of_nat ids) @ '']''"

definition str_binding :: "'d collaborators \<Rightarrow> nat \<Rightarrow> string" where
  "str_binding C i = model_name C @ ''('' @ string_of_nat i @ '',)''"

definition newline :: string where
  "newline = [CHR 0x0A]"

definition msg_cannot_delete_active :: "'d collaborators \<Rightarrow> nat \<Rightarrow> 'd binding \<Rightarrow> string" where
  "msg_cannot_delete_active C i b =
     ''You cannot delete the binding '' @ [CHR 0x27] @ display_name C i b @ [CHR 0x27]
       @ '', unactivate it first.''"

definition msg_cannot_delete_not_synchronized :: "'d collaborators \<Rightarrow> nat \<Rightarrow> 'd binding \<Rightarrow> string" where
  "msg_cannot_delete_not_synchronized C i b =
     ''You cannot delete the binding '' @ [CHR 0x27] @ display_name C i b @ [CHR 0x27]
       @ '', wait until it'' @ [CHR 0x27] @ ''s synchronized.''"

subsection \<open>\<open>unlink\<close>\<close>

text \<open>
  The loop over the records: a record in state \<open>new\<close>, or in state \<open>done\<close> and inactive, is
  passed over; the first other record raises, with one message when it is active and another
  when it is not. Only when the loop ends are the records removed. A raise leaves the
  environment as it is at that point, which is the environment of the call.
\<close>

fun unlink_check :: "'d collaborators \<Rightarrow> (nat \<rightharpoonup> 'd binding) \<Rightarrow> nat list \<Rightarrow> error option" where
  "unlink_check C tbl [] = None"
| "unlink_check C tbl (i # rest) =
     (case tbl i of
        None \<Rightarrow> unlink_check C tbl rest
      | Some record \<Rightarrow>
          if sync_state record = New \<or> (sync_state record = Done \<and> \<not> active record)
          then unlink_check C tbl rest
          else if active record then Some (UserError (msg_cannot_delete_active C i record))
          else Some (UserError (msg_cannot_delete_not_synchronized C i record)))"

definition unlink :: "'d collaborators \<Rightarrow> nat list \<Rightarrow> 'd env \<Rightarrow> (error + bool) \<times> 'd env" where
  "unlink C self env =
     (case unlink_check C (table env) self of
        Some e \<Rightarrow> (Inl e, env)
      | None \<Rightarrow> (Inr True, orm_unlink self env))"

subsection \<open>\<open>_work_by_index\<close>\<close>

text \<open>
  The method is a generator, so its body runs interleaved with the body of the loop that
  consumes it: the recordset is reduced to the existing records and the backends are mapped
  when the loop starts, the indexes are mapped when a backend is reached, and the records of
  a group are filtered when its pair of backend and index is reached, each time against the
  table as the consumer has left it. The consumer's loop body is the parameter \<open>body\<close>; it
  transforms the environment together with the local variables of the consumer.
\<close>

definition group_bindings ::
  "'d collaborators \<Rightarrow> (nat \<rightharpoonup> 'd binding) \<Rightarrow> nat list \<Rightarrow> bool \<Rightarrow> nat \<Rightarrow> nat \<Rightarrow> nat list" where
  "group_bindings C tbl self act backend index =
     filtered (\<lambda>b. se_backend_id C b = backend \<and> index_id b = index \<and> active b = act) tbl self"

definition work_on :: "'d collaborators \<Rightarrow> nat \<Rightarrow> nat list \<Rightarrow> nat \<Rightarrow> work" where
  "work_on C backend bindings index =
     \<lparr>work_collection = specific_backend C backend, work_records = bindings, work_index = index\<rparr>"

fun work_by_index_indexes ::
  "'d collaborators \<Rightarrow> (work \<Rightarrow> 'd env \<times> 'a \<Rightarrow> 'd env \<times> 'a) \<Rightarrow> nat list \<Rightarrow> bool \<Rightarrow> nat \<Rightarrow>
     nat list \<Rightarrow> 'd env \<times> 'a \<Rightarrow> 'd env \<times> 'a" where
  "work_by_index_indexes C body self act backend [] s = s"
| "work_by_index_indexes C body self act backend (index # rest) s =
     (let bindings = group_bindings C (table (fst s)) self act backend index;
          work = work_on C backend bindings index
      in work_by_index_indexes C body self act backend rest (body work s))"

fun work_by_index_backends ::
  "'d collaborators \<Rightarrow> (work \<Rightarrow> 'd env \<times> 'a \<Rightarrow> 'd env \<times> 'a) \<Rightarrow> nat list \<Rightarrow> bool \<Rightarrow>
     nat list \<Rightarrow> 'd env \<times> 'a \<Rightarrow> 'd env \<times> 'a" where
  "work_by_index_backends C body self act [] s = s"
| "work_by_index_backends C body self act (backend # rest) s =
     work_by_index_backends C body self act rest
       (work_by_index_indexes C body self act backend (mapped index_id (table (fst s)) self) s)"

definition work_by_index ::
  "'d collaborators \<Rightarrow> (work \<Rightarrow> 'd env \<times> 'a \<Rightarrow> 'd env \<times> 'a) \<Rightarrow> nat list \<Rightarrow> bool \<Rightarrow>
     'd env \<times> 'a \<Rightarrow> 'd env \<times> 'a" where
  "work_by_index C body self0 act s =
     (let self = exists_rs (table (fst s)) self0
      in work_by_index_backends C body self act (mapped (se_backend_id C) (table (fst s)) self) s)"

text \<open>The groups yielded to a consumer that only collects them.\<close>

definition yielded_works :: "'d collaborators \<Rightarrow> nat list \<Rightarrow> bool \<Rightarrow> 'd env \<Rightarrow> work list" where
  "yielded_works C self act env =
     snd (work_by_index C (\<lambda>work s. (fst s, snd s @ [work])) self act (env, []))"

subsection \<open>\<open>recompute_json\<close>\<close>

definition recompute_json_work_ctx :: "'d collaborators \<Rightarrow> work \<Rightarrow> string option" where
  "recompute_json_work_ctx C work = lang_code C (work_index work)"

definition validate_record :: "'d collaborators \<Rightarrow> work \<Rightarrow> 'd \<Rightarrow> string option" where
  "validate_record C work index_record =
     collection_validate_record C (work_collection work) index_record"

text \<open>Python's truth value of the validator's result (nothing and the empty text are
  false), and its text in the message.\<close>

definition truthy :: "string option \<Rightarrow> bool" where
  "truthy e = (e \<noteq> None \<and> e \<noteq> Some [])"

definition str_error :: "string option \<Rightarrow> string" where
  "str_error e = (case e of None \<Rightarrow> ''None'' | Some t \<Rightarrow> t)"

text \<open>
  The body of the inner loop, for one binding of a group. The local variables of
  \<open>recompute_json\<close> that the loops update are \<open>validation_errors\<close> and \<open>to_be_checked\<close>.
\<close>

definition recompute_binding ::
  "'d collaborators \<Rightarrow> bool \<Rightarrow> work \<Rightarrow> nat \<Rightarrow> 'd env \<times> string list \<times> nat list \<Rightarrow>
     'd env \<times> string list \<times> nat list" where
  "recompute_binding C force_export work i s =
     (case s of (env, validation_errors, to_be_checked) \<Rightarrow>
        (case table env i of
           None \<Rightarrow> s
         | Some binding \<Rightarrow>
             (let index_record =
                    mapper_map_record C work (recompute_json_work_ctx C work) i binding;
                  error = validate_record C work index_record
              in if truthy error then
                   (let msg = str_binding C i @ '': '' @ str_error error
                    in (env, validation_errors @ [msg], to_be_checked @ [i]))
                 else if data binding \<noteq> Some index_record \<or> force_export then
                   (let vals = no_vals\<lparr>v_data := Some (Some index_record)\<rparr>;
                        vals' = (if sync_state binding \<noteq> To_update
                                 then vals\<lparr>v_sync_state := Some To_update\<rparr> else vals)
                    in (write_binding [i] vals' env, validation_errors, to_be_checked))
                 else s)))"

definition recompute_work ::
  "'d collaborators \<Rightarrow> bool \<Rightarrow> work \<Rightarrow> 'd env \<times> string list \<times> nat list \<Rightarrow>
     'd env \<times> string list \<times> nat list" where
  "recompute_work C force_export work s =
     fold (recompute_binding C force_export work) (work_records work) s"

definition recompute_json ::
  "'d collaborators \<Rightarrow> nat list \<Rightarrow> bool \<Rightarrow> 'd env \<Rightarrow> string \<times> 'd env" where
  "recompute_json C self force_export env =
     (case work_by_index C (recompute_work C force_export) self True (env, [], []) of
        (env1, validation_errors, to_be_checked) \<Rightarrow>
          (let result = (if validation_errors \<noteq> []
                         then [''Validation errors'' @ newline @ join newline validation_errors]
                         else []);
               env2 = (if to_be_checked \<noteq> []
                       then write_binding to_be_checked
                              (no_vals\<lparr>v_sync_state := Some To_be_checked\<rparr>) env1
                       else env1)
           in (join (newline @ newline) result, env2)))"

subsection \<open>\<open>synchronize\<close>\<close>

definition export_work :: "'d collaborators \<Rightarrow> work \<Rightarrow> 'd env \<times> nat list \<Rightarrow> 'd env \<times> nat list" where
  "export_work C work s =
     (case s of (env, export_ids) \<Rightarrow> (exporter_run C work env, export_ids @ work_records work))"

definition delete_work :: "'d collaborators \<Rightarrow> work \<Rightarrow> 'd env \<times> nat list \<Rightarrow> 'd env \<times> nat list" where
  "delete_work C work s =
     (case s of (env, delete_ids) \<Rightarrow> (deleter_run C work env, delete_ids @ work_records work))"

definition synchronize :: "'d collaborators \<Rightarrow> nat list \<Rightarrow> 'd env \<Rightarrow> string \<times> 'd env" where
  "synchronize C self env =
     (case work_by_index C (export_work C) self True (env, []) of
        (env1, export_ids) \<Rightarrow>
          (case work_by_index C (delete_work C) self False (env1, []) of
             (env2, delete_ids) \<Rightarrow>
               (''Exported ids : '' @ str_ids export_ids @ newline
                  @ ''Deleted ids : '' @ str_ids delete_ids, env2)))"

section \<open>Definitions for the statements and their proofs\<close>

text \<open>The test of the loop of \<open>unlink\<close>: the record is passed over.\<close>

definition may_unlink :: "'d binding \<Rightarrow> bool" where
  "may_unlink b = (sync_state b = New \<or> (sync_state b = Done \<and> \<not> active b))"

text \<open>
  What the partition reads of a table: for every id whether it has a row, and the index and
  the \<open>active\<close> flag of that row.
\<close>

definition static :: "(nat \<rightharpoonup> 'd binding) \<Rightarrow> nat \<Rightarrow> (nat \<times> bool) option" where
  "static tbl i = map_option (\<lambda>b. (index_id b, active b)) (tbl i)"

text \<open>
  The groups of a recordset as one table gives them, in the order of the generator: backends
  outermost, indexes within.
\<close>

definition works_of :: "'d collaborators \<Rightarrow> (nat \<rightharpoonup> 'd binding) \<Rightarrow> nat list \<Rightarrow> bool \<Rightarrow> work list" where
  "works_of C tbl self0 act =
     (let self = exists_rs tbl self0 in
      concat (map (\<lambda>backend.
                map (\<lambda>index. work_on C backend (group_bindings C tbl self act backend index) index)
                  (mapped index_id tbl self))
              (mapped (se_backend_id C) tbl self)))"

text \<open>A loop body that leaves alone what the partition reads.\<close>

definition keeps_static :: "(work \<Rightarrow> 'd env \<times> 'a \<Rightarrow> 'd env \<times> 'a) \<Rightarrow> bool" where
  "keeps_static body = (\<forall>w s. static (table (fst (body w s))) = static (table (fst s)))"

text \<open>
  For a binding \<open>i\<close> with row \<open>b\<close> in a work context: the candidate document of the mapper,
  whether the validator refuses it, its line in the report, whether the candidate is written,
  and the dictionary of that write.
\<close>

definition candidate :: "'d collaborators \<Rightarrow> work \<Rightarrow> nat \<Rightarrow> 'd binding \<Rightarrow> 'd" where
  "candidate C w i b = mapper_map_record C w (recompute_json_work_ctx C w) i b"

definition fails :: "'d collaborators \<Rightarrow> work \<Rightarrow> nat \<Rightarrow> 'd binding \<Rightarrow> bool" where
  "fails C w i b = truthy (validate_record C w (candidate C w i b))"

definition error_msg :: "'d collaborators \<Rightarrow> work \<Rightarrow> nat \<Rightarrow> 'd binding \<Rightarrow> string" where
  "error_msg C w i b = str_binding C i @ '': '' @ str_error (validate_record C w (candidate C w i b))"

definition stores :: "'d collaborators \<Rightarrow> bool \<Rightarrow> work \<Rightarrow> nat \<Rightarrow> 'd binding \<Rightarrow> bool" where
  "stores C force w i b = (\<not> fails C w i b \<and> (data b \<noteq> Some (candidate C w i b) \<or> force))"

definition data_vals :: "'d collaborators \<Rightarrow> work \<Rightarrow> nat \<Rightarrow> 'd binding \<Rightarrow> 'd vals" where
  "data_vals C w i b =
     (if sync_state b \<noteq> To_update
      then no_vals\<lparr>v_data := Some (Some (candidate C w i b)), v_sync_state := Some To_update\<rparr>
      else no_vals\<lparr>v_data := Some (Some (candidate C w i b))\<rparr>)"

text \<open>
  The pairs of a work context and a binding in the order in which the two loops of
  \<open>recompute_json\<close> reach them, and the loop body on such a pair.
\<close>

definition pairs_of :: "work list \<Rightarrow> (work \<times> nat) list" where
  "pairs_of ws = concat (map (\<lambda>w. map (Pair w) (work_records w)) ws)"

definition step :: "'d collaborators \<Rightarrow> bool \<Rightarrow> work \<times> nat \<Rightarrow> 'd env \<times> string list \<times> nat list \<Rightarrow>
     'd env \<times> string list \<times> nat list" where
  "step C force p s = recompute_binding C force (fst p) (snd p) s"

text \<open>
  What one step of the loops does to a binding, read on a fixed table \<open>T\<close>: whether it fails,
  whether it is written, its line in the report, the write recorded for it, and its row after
  the step.
\<close>

definition failing :: "'d collaborators \<Rightarrow> (nat \<rightharpoonup> 'd binding) \<Rightarrow> work \<times> nat \<Rightarrow> bool" where
  "failing C T p = (case T (snd p) of None \<Rightarrow> False | Some b \<Rightarrow> fails C (fst p) (snd p) b)"

definition storing :: "'d collaborators \<Rightarrow> bool \<Rightarrow> (nat \<rightharpoonup> 'd binding) \<Rightarrow> work \<times> nat \<Rightarrow> bool" where
  "storing C force T p = (case T (snd p) of None \<Rightarrow> False | Some b \<Rightarrow> stores C force (fst p) (snd p) b)"

definition msg_of :: "'d collaborators \<Rightarrow> (nat \<rightharpoonup> 'd binding) \<Rightarrow> work \<times> nat \<Rightarrow> string" where
  "msg_of C T p = (case T (snd p) of None \<Rightarrow> [] | Some b \<Rightarrow> error_msg C (fst p) (snd p) b)"

definition write_of :: "'d collaborators \<Rightarrow> (nat \<rightharpoonup> 'd binding) \<Rightarrow> work \<times> nat \<Rightarrow> nat list \<times> 'd vals" where
  "write_of C T p = ([snd p], case T (snd p) of None \<Rightarrow> no_vals | Some b \<Rightarrow> data_vals C (fst p) (snd p) b)"

definition row_after :: "'d collaborators \<Rightarrow> bool \<Rightarrow> (nat \<rightharpoonup> 'd binding) \<Rightarrow> work \<times> nat \<Rightarrow> 'd binding option" where
  "row_after C force T p =
     (case T (snd p) of None \<Rightarrow> None
      | Some b \<Rightarrow> if stores C force (fst p) (snd p) b
                  then Some (b\<lparr>data := Some (candidate C (fst p) (snd p) b), sync_state := To_update\<rparr>)
                  else Some b)"

text \<open>The work context of the group that a binding with row \<open>b\<close> belongs to.\<close>

definition work_of :: "'d collaborators \<Rightarrow> (nat \<rightharpoonup> 'd binding) \<Rightarrow> nat list \<Rightarrow> bool \<Rightarrow> 'd binding \<Rightarrow> work" where
  "work_of C tbl self act b =
     work_on C (se_backend_id C b)
       (group_bindings C tbl (exists_rs tbl self) act (se_backend_id C b) (index_id b))
       (index_id b)"

text \<open>The dictionary of the final write of \<open>recompute_json\<close>.\<close>

definition to_be_checked_vals :: "'d vals" where
  "to_be_checked_vals = no_vals\<lparr>v_sync_state := Some To_be_checked\<rparr>"

text \<open>
  The row of binding \<open>j\<close> after \<open>recompute_json\<close> on the recordset \<open>self\<close>, from its row
  \<open>b\<close> before: untouched when the binding is not in the recordset or not active, in state
  \<open>to_be_checked\<close> when its candidate fails validation, rewritten and in state
  \<open>to_update\<close> when the candidate differs from the stored document or the export is forced.
\<close>

definition recompute_row ::
  "'d collaborators \<Rightarrow> bool \<Rightarrow> (nat \<rightharpoonup> 'd binding) \<Rightarrow> nat list \<Rightarrow> nat \<Rightarrow> 'd binding \<Rightarrow> 'd binding" where
  "recompute_row C force tbl self j b =
     (if j \<in> set self \<and> active b then
        (let w = work_of C tbl self True b in
         if fails C w j b then b\<lparr>sync_state := To_be_checked\<rparr>
         else if data b \<noteq> Some (candidate C w j b) \<or> force
              then b\<lparr>data := Some (candidate C w j b), sync_state := To_update\<rparr>
              else b)
      else b)"

text \<open>The pairs that the loops of \<open>recompute_json\<close> process, and the state after the loops.\<close>

definition loop_pairs :: "'d collaborators \<Rightarrow> 'd env \<Rightarrow> nat list \<Rightarrow> (work \<times> nat) list" where
  "loop_pairs C env self = pairs_of (works_of C (table env) self True)"

definition loop_state :: "'d collaborators \<Rightarrow> bool \<Rightarrow> 'd env \<Rightarrow> nat list \<Rightarrow> 'd env \<times> string list \<times> nat list" where
  "loop_state C force env self = fold (step C force) (loop_pairs C env self) (env, [], [])"

text \<open>
  A small database for the concrete checks. The backend of an index is its number divided
  by ten, the mapper gives the id of the binding as its document, the validator refuses the
  document 2, the exporter marks the records of its group as done, and the deleter leaves
  the table alone. Bindings 1 and 2 are active on index 1, binding 3 is active on index 12,
  binding 4 is inactive on index 1.
\<close>

definition example_binding :: "nat \<Rightarrow> sync_state \<Rightarrow> nat option \<Rightarrow> bool \<Rightarrow> nat binding" where
  "example_binding ix st d a =
     \<lparr>index_id = ix, sync_state = st, date_modified = None, date_syncronized = None,
      data = d, active = a\<rparr>"

definition example_collaborators :: "nat collaborators" where
  "example_collaborators =
     \<lparr>backend_id = (\<lambda>ix. ix div 10), specific_backend = (\<lambda>b. b), lang_code = (\<lambda>ix. None),
      display_name = (\<lambda>i b. ''binding''), model_name = ''se.binding'',
      mapper_map_record = (\<lambda>w l i b. i),
      collection_validate_record = (\<lambda>c d. if d = 2 then Some ''bad'' else None),
      exporter_run = (\<lambda>w e. orm_write (work_records w) (no_vals\<lparr>v_sync_state := Some Done\<rparr>) e),
      deleter_run = (\<lambda>w e. e)\<rparr>"

definition example_env :: "nat env" where
  "example_env =
     \<lparr>table = [1 \<mapsto> example_binding 1 New None True,
               2 \<mapsto> example_binding 1 Done (Some 5) True,
               3 \<mapsto> example_binding 12 Done (Some 3) True,
               4 \<mapsto> example_binding 1 Done None False],
      writes = []\<rparr>"

text \<open>
  A mapper whose document does not depend on the \<open>data\<close> and \<open>sync_state\<close> of the binding:
  the two fields that \<open>recompute_json\<close> itself changes between two calls.
\<close>

definition mapper_independent :: "'d collaborators \<Rightarrow> bool" where
  "mapper_independent C =
     (\<forall>w l i b d s. mapper_map_record C w l i (b\<lparr>data := d, sync_state := s\<rparr>)
                      = mapper_map_record C w l i b)"

text \<open>
  A component whose \<open>run\<close> leaves alone what the partition reads: which bindings exist, their
  index and their \<open>active\<close> flag.
\<close>

definition keeps_partition :: "(work \<Rightarrow> 'd env \<Rightarrow> 'd env) \<Rightarrow> bool" where
  "keeps_partition run = (\<forall>w e. static (table (run w e)) = static (table e))"

section \<open>Properties\<close>

subsection \<open>The framework's write and the write of the binding\<close>

lemma apply_vals_simps [simp]:
  "index_id (apply_vals v b) = (case v_index_id v of None \<Rightarrow> index_id b | Some x \<Rightarrow> x)"
  "sync_state (apply_vals v b) = (case v_sync_state v of None \<Rightarrow> sync_state b | Some x \<Rightarrow> x)"
  "date_modified (apply_vals v b) = (case v_date_modified v of None \<Rightarrow> date_modified b | Some x \<Rightarrow> x)"
  "date_syncronized (apply_vals v b) = (case v_date_syncronized v of None \<Rightarrow> date_syncronized b | Some x \<Rightarrow> x)"
  "data (apply_vals v b) = (case v_data v of None \<Rightarrow> data b | Some x \<Rightarrow> x)"
  "active (apply_vals v b) = (case v_active v of None \<Rightarrow> active b | Some x \<Rightarrow> x)"
  by (simp_all add: apply_vals_def)

lemma table_orm_write:
  "table (orm_write self v env) i =
     (if i \<in> set self then map_option (apply_vals v) (table env i) else table env i)"
  by (simp add: orm_write_def)

lemma writes_orm_write: "writes (orm_write self v env) = writes env @ [(self, v)]"
  by (simp add: orm_write_def)

lemma minus_rs_Nil [simp]: "minus_rs self [] = self"
  by (simp add: minus_rs_def)

lemma set_minus_rs [simp]: "set (minus_rs self other) = set self - set other"
  by (auto simp: minus_rs_def)

lemma set_filtered: "set (filtered p tbl self) = {i \<in> set self. \<exists>b. tbl i = Some b \<and> p b}"
  by (auto simp: filtered_def split: option.splits)

lemma table_write_binding:
  "table (write_binding self vals env) i =
     (case table env i of
        None \<Rightarrow> None
      | Some b \<Rightarrow>
          if i \<in> set self
          then Some (apply_vals (if v_active vals = Some False \<and> sync_state b \<noteq> New
                                 then vals\<lparr>v_sync_state := Some To_update\<rparr> else vals) b)
          else Some b)"
  by (auto simp: write_binding_def Let_def table_orm_write set_filtered split: option.splits)

lemma write_binding_plain:
  "v_active vals \<noteq> Some False \<Longrightarrow> write_binding self vals env = orm_write self vals env"
  by (simp add: write_binding_def)

text \<open>
  Claim C4, as the code has it. A write whose dictionary sets \<open>active\<close> to false gives a
  binding that is not in state \<open>new\<close> the state \<open>to_update\<close>. A binding in state
  \<open>new\<close> is written with the dictionary as given: its state stays \<open>new\<close> when the
  dictionary has no \<open>sync_state\<close> entry, and becomes the supplied value when it has one.
  Every other field is taken from the dictionary for both kinds of binding.
\<close>

theorem write_deactivate:
  assumes "v_active vals = Some False" and "i \<in> set self" and "table env i = Some b"
  shows "\<exists>b'. table (write_binding self vals env) i = Some b'
           \<and> sync_state b' = (if sync_state b \<noteq> New then To_update
                               else (case v_sync_state vals of None \<Rightarrow> New | Some s \<Rightarrow> s))
           \<and> index_id b' = index_id (apply_vals vals b)
           \<and> date_modified b' = date_modified (apply_vals vals b)
           \<and> date_syncronized b' = date_syncronized (apply_vals vals b)
           \<and> data b' = data (apply_vals vals b)
           \<and> active b' = False"
  using assms by (auto simp: table_write_binding split: option.splits)

text \<open>
  Claim C10. For a binding whose state is not \<open>new\<close>, a single write that sets \<open>active\<close>
  to false and also supplies a \<open>sync_state\<close> leaves the binding in state \<open>to_update\<close>,
  whatever value was supplied.
\<close>

theorem write_deactivate_overrides:
  assumes "v_active vals = Some False" and "v_sync_state vals = Some s"
    and "i \<in> set self" and "table env i = Some b" and "sync_state b \<noteq> New"
  shows "\<exists>b'. table (write_binding self vals env) i = Some b' \<and> sync_state b' = To_update"
  using assms by (auto simp: table_write_binding)

text \<open>
  Claim C9. \<open>get_export_data\<close> on one binding returns the stored \<open>data\<close> of its row; it
  takes no mapper (none of the collaborators is a parameter of it), and it returns the
  environment it was given, so that no field of any binding and no recorded write changes.
\<close>

theorem get_export_data_reads:
  assumes "table env i = Some b"
  shows "get_export_data [i] env = (Inr (data b), env)"
  using assms by (simp add: get_export_data_def)

subsection \<open>Deletion\<close>

lemma unlink_check_None_iff:
  "unlink_check C tbl self = None \<longleftrightarrow> (\<forall>i\<in>set self. \<forall>b. tbl i = Some b \<longrightarrow> may_unlink b)"
  by (induction self) (auto simp: may_unlink_def split: option.splits)

lemma unlink_check_first:
  assumes "\<forall>j\<in>set pre. \<forall>b. tbl j = Some b \<longrightarrow> may_unlink b"
    and "tbl i = Some b" and "\<not> may_unlink b"
  shows "unlink_check C tbl (pre @ i # post) =
           Some (UserError (if active b then msg_cannot_delete_active C i b
                            else msg_cannot_delete_not_synchronized C i b))"
  using assms by (induction pre) (auto simp: may_unlink_def split: option.splits)

text \<open>
  Claim C3. For a recordset of existing bindings, \<open>unlink\<close> succeeds exactly when every
  binding is in state \<open>new\<close>, or in state \<open>done\<close> and inactive, and it then removes all
  of them. Otherwise it raises a user error, whose message is the one about unactivating
  first when the first offending binding is active and the one about waiting for the
  synchronization when it is inactive, and the environment is left as it was: no binding
  is removed.
\<close>

theorem unlink_all_or_nothing:
  assumes "set self \<subseteq> dom (table env)"
  shows "(fst (unlink C self env) = Inr True
            \<longleftrightarrow> (\<forall>i\<in>set self. \<forall>b. table env i = Some b \<longrightarrow> may_unlink b))
       \<and> ((\<forall>i\<in>set self. \<forall>b. table env i = Some b \<longrightarrow> may_unlink b) \<longrightarrow>
            unlink C self env = (Inr True, orm_unlink self env)
            \<and> (\<forall>i\<in>set self. table (snd (unlink C self env)) i = None))
       \<and> (\<forall>pre i post b. self = pre @ i # post
              \<and> (\<forall>j\<in>set pre. \<forall>b'. table env j = Some b' \<longrightarrow> may_unlink b')
              \<and> table env i = Some b \<and> \<not> may_unlink b \<longrightarrow>
            unlink C self env =
              (Inl (UserError (if active b then msg_cannot_delete_active C i b
                               else msg_cannot_delete_not_synchronized C i b)), env))
       \<and> ((\<exists>i\<in>set self. \<exists>b. table env i = Some b \<and> \<not> may_unlink b) \<longrightarrow>
            (\<exists>m. fst (unlink C self env) = Inl (UserError m)) \<and> snd (unlink C self env) = env)"
proof (intro conjI)
  show "fst (unlink C self env) = Inr True
          \<longleftrightarrow> (\<forall>i\<in>set self. \<forall>b. table env i = Some b \<longrightarrow> may_unlink b)"
    using unlink_check_None_iff [of C "table env" self]
    by (auto simp: unlink_def split: option.splits)
  show "(\<forall>i\<in>set self. \<forall>b. table env i = Some b \<longrightarrow> may_unlink b) \<longrightarrow>
            unlink C self env = (Inr True, orm_unlink self env)
            \<and> (\<forall>i\<in>set self. table (snd (unlink C self env)) i = None)"
    using unlink_check_None_iff [of C "table env" self]
    by (auto simp: unlink_def orm_unlink_def split: option.splits)
  show "\<forall>pre i post b. self = pre @ i # post
              \<and> (\<forall>j\<in>set pre. \<forall>b'. table env j = Some b' \<longrightarrow> may_unlink b')
              \<and> table env i = Some b \<and> \<not> may_unlink b \<longrightarrow>
            unlink C self env =
              (Inl (UserError (if active b then msg_cannot_delete_active C i b
                               else msg_cannot_delete_not_synchronized C i b)), env)"
    by (auto simp: unlink_def unlink_check_first)
  show "(\<exists>i\<in>set self. \<exists>b. table env i = Some b \<and> \<not> may_unlink b) \<longrightarrow>
            (\<exists>m. fst (unlink C self env) = Inl (UserError m)) \<and> snd (unlink C self env) = env"
  proof
    assume "\<exists>i\<in>set self. \<exists>b. table env i = Some b \<and> \<not> may_unlink b"
    then have "unlink_check C (table env) self \<noteq> None"
      using unlink_check_None_iff [of C "table env" self] by blast
    moreover have "\<And>e. unlink_check C (table env) self = Some e \<Longrightarrow> \<exists>m. e = UserError m"
      by (induction self) (auto split: option.splits if_splits)
    ultimately show "(\<exists>m. fst (unlink C self env) = Inl (UserError m)) \<and> snd (unlink C self env) = env"
      by (auto simp: unlink_def split: option.splits)
  qed
qed

subsection \<open>The generator as a fold over the groups of the initial table\<close>

lemma static_eq_iff:
  "static tbl = static tbl' \<longleftrightarrow>
     (\<forall>i. (tbl i = None \<longleftrightarrow> tbl' i = None)
        \<and> (\<forall>b b'. tbl i = Some b \<and> tbl' i = Some b' \<longrightarrow> index_id b = index_id b' \<and> active b = active b'))"
  apply (simp add: fun_eq_iff static_def)
  apply (rule iffI)
   apply (intro allI)
  subgoal for i by (erule_tac x=i in allE) (cases "tbl i"; cases "tbl' i"; auto)
  apply (intro allI)
  subgoal for i by (erule_tac x=i in allE) (cases "tbl i"; cases "tbl' i"; auto)
  done

lemma exists_rs_static: "static tbl = static tbl' \<Longrightarrow> exists_rs tbl self = exists_rs tbl' self"
  unfolding exists_rs_def static_eq_iff by (rule filter_cong) auto

lemma map_option_static:
  "map_option (\<lambda>b. h (index_id b) (active b)) (tbl i) = map_option (\<lambda>(ix, a). h ix a) (static tbl i)"
  by (cases "tbl i") (simp_all add: static_def)

lemma group_bindings_via_static:
  "group_bindings C tbl self act bk ix =
     filter (\<lambda>i. case static tbl i of None \<Rightarrow> False
                  | Some (x, a) \<Rightarrow> backend_id C x = bk \<and> x = ix \<and> a = act) self"
  unfolding group_bindings_def filtered_def
proof (rule filter_cong [OF refl])
  fix i
  show "(case tbl i of None \<Rightarrow> False
         | Some b \<Rightarrow> se_backend_id C b = bk \<and> index_id b = ix \<and> active b = act)
      = (case static tbl i of None \<Rightarrow> False
         | Some (x, a) \<Rightarrow> backend_id C x = bk \<and> x = ix \<and> a = act)"
    by (cases "tbl i") (simp_all add: static_def se_backend_id_def)
qed

lemma group_bindings_static:
  assumes "static tbl = static tbl'"
  shows "group_bindings C tbl self act bk ix = group_bindings C tbl' self act bk ix"
  by (simp add: group_bindings_via_static assms)

lemma map_filter_static:
  assumes "static tbl = static tbl'"
  shows "List.map_filter (\<lambda>i. map_option (\<lambda>b. g (index_id b)) (tbl i)) self
       = List.map_filter (\<lambda>i. map_option (\<lambda>b. g (index_id b)) (tbl' i)) self"
  using map_option_static [of "\<lambda>ix a. g ix" tbl] map_option_static [of "\<lambda>ix a. g ix" tbl'] assms
  by simp

lemma mapped_index_static:
  "static tbl = static tbl' \<Longrightarrow> mapped index_id tbl self = mapped index_id tbl' self"
  using map_filter_static [of tbl tbl' "\<lambda>x. x" self] by (simp add: mapped_def)

lemma mapped_backend_static:
  "static tbl = static tbl' \<Longrightarrow> mapped (se_backend_id C) tbl self = mapped (se_backend_id C) tbl' self"
proof -
  have "se_backend_id C = (\<lambda>b. backend_id C (index_id b))"
    by (simp add: fun_eq_iff se_backend_id_def)
  then show "static tbl = static tbl' \<Longrightarrow> ?thesis"
    using map_filter_static [of tbl tbl' "backend_id C" self] by (simp add: mapped_def)
qed

lemma fold_keeps_static:
  "keeps_static body \<Longrightarrow> static (table (fst (fold body ws s))) = static (table (fst s))"
  by (induction ws arbitrary: s) (auto simp: keeps_static_def)

lemma work_by_index_indexes_fold:
  assumes "keeps_static body"
  shows "work_by_index_indexes C body self act bk ixs s =
           fold body (map (\<lambda>ix. work_on C bk (group_bindings C (table (fst s)) self act bk ix) ix) ixs) s"
proof (induction ixs arbitrary: s)
  case Nil
  show ?case by simp
next
  case (Cons ix ixs)
  let ?w = "work_on C bk (group_bindings C (table (fst s)) self act bk ix) ix"
  have st: "static (table (fst (body ?w s))) = static (table (fst s))"
    using assms unfolding keeps_static_def by blast
  have "\<And>ix'. group_bindings C (table (fst (body ?w s))) self act bk ix'
             = group_bindings C (table (fst s)) self act bk ix'"
    by (rule group_bindings_static [OF st])
  then show ?case by (simp add: Cons.IH Let_def)
qed

lemma work_by_index_backends_fold:
  assumes "keeps_static body"
  shows "work_by_index_backends C body self act bks s =
           fold body (concat (map (\<lambda>bk.
               map (\<lambda>ix. work_on C bk (group_bindings C (table (fst s)) self act bk ix) ix)
                 (mapped index_id (table (fst s)) self)) bks)) s"
proof (induction bks arbitrary: s)
  case Nil
  show ?case by simp
next
  case (Cons bk bks)
  let ?ws = "map (\<lambda>ix. work_on C bk (group_bindings C (table (fst s)) self act bk ix) ix)
                 (mapped index_id (table (fst s)) self)"
  have st: "static (table (fst (fold body ?ws s))) = static (table (fst s))"
    by (rule fold_keeps_static [OF assms])
  have g: "\<And>bk' ix'. group_bindings C (table (fst (fold body ?ws s))) self act bk' ix'
             = group_bindings C (table (fst s)) self act bk' ix'"
    by (rule group_bindings_static [OF st])
  have m: "mapped index_id (table (fst (fold body ?ws s))) self = mapped index_id (table (fst s)) self"
    by (rule mapped_index_static [OF st])
  show ?case
    by (simp add: Cons.IH work_by_index_indexes_fold [OF assms] g m)
qed

lemma work_by_index_fold:
  assumes "keeps_static body"
  shows "work_by_index C body self act s = fold body (works_of C (table (fst s)) self act) s"
  by (simp add: work_by_index_def works_of_def Let_def work_by_index_backends_fold [OF assms])

lemma yielded_works_eq: "yielded_works C self act env = works_of C (table env) self act"
proof -
  let ?body = "\<lambda>work (s :: 'a env \<times> work list). (fst s, snd s @ [work])"
  have k: "keeps_static ?body" by (simp add: keeps_static_def)
  have "\<And>s. fold ?body ws s = (fst s, snd s @ ws)" for ws
    by (induction ws) auto
  then show ?thesis
    by (simp add: yielded_works_def work_by_index_fold [OF k])
qed

subsection \<open>One binding of one group\<close>

lemma recompute_binding_cases:
  "recompute_binding C force w i (env, errs, tbc) =
     (case table env i of
        None \<Rightarrow> (env, errs, tbc)
      | Some b \<Rightarrow>
          if fails C w i b then (env, errs @ [error_msg C w i b], tbc @ [i])
          else if stores C force w i b then (orm_write [i] (data_vals C w i b) env, errs, tbc)
          else (env, errs, tbc))"
  by (auto simp: recompute_binding_def fails_def candidate_def error_msg_def stores_def
        data_vals_def Let_def write_binding_plain no_vals_def split: option.splits)

lemma apply_data_vals:
  "apply_vals (data_vals C w i b) b = b\<lparr>data := Some (candidate C w i b), sync_state := To_update\<rparr>"
  by (simp add: data_vals_def apply_vals_def no_vals_def)

lemma table_recompute_binding:
  "table (fst (recompute_binding C force w i s)) j =
     (if j = i then
        (case table (fst s) i of None \<Rightarrow> None
         | Some b \<Rightarrow> if stores C force w i b
                     then Some (b\<lparr>data := Some (candidate C w i b), sync_state := To_update\<rparr>)
                     else Some b)
      else table (fst s) j)"
  by (cases s) (auto simp: recompute_binding_cases table_orm_write apply_data_vals stores_def
        split: option.splits)

lemma recompute_binding_static:
  "static (table (fst (recompute_binding C force w i s))) = static (table (fst s))"
  by (rule ext) (auto simp: static_def table_recompute_binding split: option.splits)

lemma fold_recompute_static:
  "static (table (fst (fold (recompute_binding C force w) is s))) = static (table (fst s))"
  by (induction "is" arbitrary: s) (simp_all add: recompute_binding_static)

lemma recompute_work_keeps_static: "keeps_static (recompute_work C force)"
  unfolding keeps_static_def recompute_work_def by (simp add: fold_recompute_static)

lemma fold_recompute_work_pairs:
  "fold (recompute_work C force) ws s = fold (step C force) (pairs_of ws) s"
proof (induction ws arbitrary: s)
  case Nil
  show ?case by (simp add: pairs_of_def)
next
  case (Cons w ws)
  have "fold (recompute_binding C force w) is s = fold (step C force) (map (Pair w) is) s" for "is" s
    by (induction "is" arbitrary: s) (simp_all add: step_def)
  then show ?case
    using Cons.IH by (simp add: pairs_of_def recompute_work_def)
qed

subsection \<open>The loops over a recordset without repeated ids\<close>

lemma step_result:
  assumes "T (snd p) = table env (snd p)"
  shows "step C force p (env, errs, tbc) =
           (if storing C force T p then orm_write [snd p] (snd (write_of C T p)) env else env,
            if failing C T p then errs @ [msg_of C T p] else errs,
            if failing C T p then tbc @ [snd p] else tbc)"
  using assms
  by (cases p)
     (auto simp: step_def recompute_binding_cases storing_def failing_def msg_of_def write_of_def
        stores_def split: option.splits)

lemma table_step:
  "table (fst (step C force p s)) j = (if j = snd p then row_after C force (table (fst s)) p else table (fst s) j)"
  by (auto simp: step_def table_recompute_binding row_after_def split: option.splits)

lemma loop_result:
  assumes "distinct (map snd ps)" and "\<forall>p\<in>set ps. T (snd p) = table env (snd p)"
  shows "(\<forall>j. table (fst (fold (step C force) ps (env, errs, tbc))) j
            = (case find (\<lambda>p. snd p = j) ps of None \<Rightarrow> table env j | Some p \<Rightarrow> row_after C force T p))
       \<and> writes (fst (fold (step C force) ps (env, errs, tbc)))
            = writes env @ map (write_of C T) (filter (storing C force T) ps)
       \<and> fst (snd (fold (step C force) ps (env, errs, tbc)))
            = errs @ map (msg_of C T) (filter (failing C T) ps)
       \<and> snd (snd (fold (step C force) ps (env, errs, tbc)))
            = tbc @ map snd (filter (failing C T) ps)"
  using assms
proof (induction ps arbitrary: env errs tbc)
  case Nil
  show ?case by simp
next
  case (Cons p ps)
  define env1 where "env1 = (if storing C force T p then orm_write [snd p] (snd (write_of C T p)) env else env)"
  define errs1 where "errs1 = (if failing C T p then errs @ [msg_of C T p] else errs)"
  define tbc1 where "tbc1 = (if failing C T p then tbc @ [snd p] else tbc)"
  have hd: "T (snd p) = table env (snd p)" using Cons.prems(2) by simp
  have s1: "step C force p (env, errs, tbc) = (env1, errs1, tbc1)"
    using step_result [of T p env C force errs tbc] hd by (simp add: env1_def errs1_def tbc1_def)
  have t1: "table env1 j = (if j = snd p then row_after C force T p else table env j)" for j
    using table_step [of C force p "(env, errs, tbc)" j] s1 hd
    by (simp add: row_after_def)
  have w1: "writes env1 = writes env @ (if storing C force T p then [write_of C T p] else [])"
    by (simp add: env1_def writes_orm_write write_of_def)
  have e1: "errs1 = errs @ (if failing C T p then [msg_of C T p] else [])"
    by (simp add: errs1_def)
  have c1: "tbc1 = tbc @ (if failing C T p then [snd p] else [])"
    by (simp add: tbc1_def)
  have d: "distinct (map snd ps)" and nin: "\<forall>q\<in>set ps. snd q \<noteq> snd p"
    using Cons.prems(1) by (auto simp: image_iff)
  have rest: "\<forall>q\<in>set ps. T (snd q) = table env1 (snd q)"
  proof
    fix q assume q: "q \<in> set ps"
    then have "snd q \<noteq> snd p" using nin by blast
    then show "T (snd q) = table env1 (snd q)"
      using Cons.prems(2) q by (simp add: t1)
  qed
  note IH = Cons.IH [OF d rest, of errs1 tbc1]
  have fnd: "find (\<lambda>q. snd q = j) ps = None" if "j = snd p" for j
    using nin that by (force simp: find_None_iff)
  have unf: "fold (step C force) (p # ps) (env, errs, tbc) = fold (step C force) ps (env1, errs1, tbc1)"
    by (simp add: s1)
  show ?case
    unfolding unf
  proof (intro conjI allI)
    fix j
    show "table (fst (fold (step C force) ps (env1, errs1, tbc1))) j =
         (case find (\<lambda>p. snd p = j) (p # ps) of None \<Rightarrow> table env j
          | Some p \<Rightarrow> row_after C force T p)"
      using IH by (simp add: t1 fnd split: option.split)
    show "writes (fst (fold (step C force) ps (env1, errs1, tbc1))) =
         writes env @ map (write_of C T) (filter (storing C force T) (p # ps))"
      using IH by (simp add: w1)
    show "fst (snd (fold (step C force) ps (env1, errs1, tbc1))) =
         errs @ map (msg_of C T) (filter (failing C T) (p # ps))"
      using IH by (simp add: e1)
    show "snd (snd (fold (step C force) ps (env1, errs1, tbc1))) =
         tbc @ map snd (filter (failing C T) (p # ps))"
      using IH by (simp add: c1)
  qed
qed

subsection \<open>The groups partition the recordset\<close>

lemma distinct_unique [simp]: "distinct (unique xs)"
  by (simp add: unique_def)

lemma set_unique [simp]: "set (unique xs) = set xs"
  by (simp add: unique_def)

lemma set_map_filter_eq: "set (List.map_filter g xs) = {y. \<exists>x\<in>set xs. g x = Some y}"
  by (induction xs) (auto split: option.splits)

lemma set_mapped: "set (mapped f tbl self) = {f b | i b. i \<in> set self \<and> tbl i = Some b}"
  by (auto simp: mapped_def set_map_filter_eq)

lemma concat_map_concat_map:
  "concat (map r (concat (map h xs))) = concat (map (\<lambda>x. concat (map r (h x))) xs)"
  by (induction xs) simp_all

lemma distinct_mapped [simp]: "distinct (mapped f tbl self)"
  by (simp add: mapped_def)

lemma set_exists_rs: "set (exists_rs tbl self) = {i \<in> set self. tbl i \<noteq> None}"
  by (auto simp: exists_rs_def)

lemma set_group_bindings:
  "set (group_bindings C tbl self act bk ix) =
     {i \<in> set self. \<exists>b. tbl i = Some b \<and> se_backend_id C b = bk \<and> index_id b = ix \<and> active b = act}"
  by (auto simp: group_bindings_def set_filtered)

lemma map_snd_pairs_of: "map snd (pairs_of ws) = concat (map work_records ws)"
  by (induction ws) (simp_all add: pairs_of_def comp_def)

lemma mset_keyed_concat:
  assumes "distinct ks" and "\<And>k. mset (g k) = mset (filter (\<lambda>i. key i = k \<and> R i) xs)"
  shows "mset (concat (map g ks)) = mset (filter (\<lambda>i. key i \<in> set ks \<and> R i) xs)"
  using assms(1)
proof (induction ks)
  case Nil
  show ?case by simp
next
  case (Cons k ks)
  then have "mset (concat (map g (k # ks)))
      = mset (filter (\<lambda>i. key i = k \<and> R i) xs) + mset (filter (\<lambda>i. key i \<in> set ks \<and> R i) xs)"
    by (simp add: assms(2))
  also have "\<dots> = mset (filter (\<lambda>i. key i \<in> set (k # ks) \<and> R i) xs)"
    using Cons.prems by (intro multiset_eqI) (auto simp: mset_filter)
  finally show ?case .
qed

lemma mset_works_records:
  "mset (concat (map work_records (works_of C tbl self act)))
     = mset (filter (\<lambda>i. case tbl i of None \<Rightarrow> False | Some b \<Rightarrow> active b = act) self)"
proof -
  define S where "S = exists_rs tbl self"
  define I where "I = (\<lambda>i. case tbl i of None \<Rightarrow> 0 | Some b \<Rightarrow> index_id b)"
  define B where "B = (\<lambda>i. backend_id C (I i))"
  define A where "A = (\<lambda>i. case tbl i of None \<Rightarrow> False | Some b \<Rightarrow> active b = act)"
  define ixs where "ixs = mapped index_id tbl S"
  define bks where "bks = mapped (se_backend_id C) tbl S"
  have ex: "\<And>i. i \<in> set S \<Longrightarrow> \<exists>b. tbl i = Some b"
    by (auto simp: S_def set_exists_rs)
  have grp: "group_bindings C tbl S act bk ix = filter (\<lambda>i. I i = ix \<and> (B i = bk \<and> A i)) S" for bk ix
    unfolding group_bindings_def filtered_def
    by (rule filter_cong [OF refl]) (auto simp: I_def B_def A_def se_backend_id_def split: option.splits)
  have Iin: "\<And>i. i \<in> set S \<Longrightarrow> I i \<in> set ixs"
    using ex by (fastforce simp: ixs_def set_mapped I_def)
  have Bin: "\<And>i. i \<in> set S \<Longrightarrow> B i \<in> set bks"
    using ex by (fastforce simp: bks_def set_mapped B_def I_def se_backend_id_def)
  have inner: "mset (concat (map (\<lambda>ix. group_bindings C tbl S act bk ix) ixs))
                 = mset (filter (\<lambda>i. B i = bk \<and> A i) S)" for bk
  proof -
    have "mset (concat (map (\<lambda>ix. group_bindings C tbl S act bk ix) ixs))
            = mset (filter (\<lambda>i. I i \<in> set ixs \<and> (B i = bk \<and> A i)) S)"
      by (rule mset_keyed_concat) (simp_all add: ixs_def grp)
    also have "filter (\<lambda>i. I i \<in> set ixs \<and> (B i = bk \<and> A i)) S = filter (\<lambda>i. B i = bk \<and> A i) S"
      by (rule filter_cong [OF refl]) (auto simp: Iin)
    finally show ?thesis .
  qed
  have recs: "concat (map work_records (works_of C tbl self act))
      = concat (map (\<lambda>bk. concat (map (\<lambda>ix. group_bindings C tbl S act bk ix) ixs)) bks)"
    by (simp add: works_of_def Let_def S_def ixs_def bks_def work_on_def concat_map_concat_map comp_def)
  have "mset (concat (map (\<lambda>bk. concat (map (\<lambda>ix. group_bindings C tbl S act bk ix) ixs)) bks))
      = mset (filter (\<lambda>i. B i \<in> set bks \<and> A i) S)"
    by (rule mset_keyed_concat) (simp_all add: bks_def inner)
  also have "filter (\<lambda>i. B i \<in> set bks \<and> A i) S = filter A S"
    by (rule filter_cong [OF refl]) (auto simp: Bin)
  also have "filter A S = filter A self"
    unfolding S_def exists_rs_def filter_filter
    by (rule filter_cong [OF refl]) (auto simp: A_def split: option.splits)
  finally show ?thesis by (simp add: recs A_def)
qed

lemma set_works_records:
  "set (concat (map work_records (works_of C tbl self act)))
     = {i \<in> set self. \<exists>b. tbl i = Some b \<and> active b = act}"
proof -
  have "set (concat (map work_records (works_of C tbl self act)))
      = set (filter (\<lambda>i. case tbl i of None \<Rightarrow> False | Some b \<Rightarrow> active b = act) self)"
    by (rule mset_eq_setD [OF mset_works_records])
  then show ?thesis by (auto split: option.splits)
qed

lemma distinct_works_records:
  "distinct self \<Longrightarrow> distinct (concat (map work_records (works_of C tbl self act)))"
  using mset_eq_imp_distinct_iff [OF mset_works_records [of C tbl self act]] by simp

lemma pairs_of_works_of_D:
  assumes "(w, i) \<in> set (pairs_of (works_of C tbl self act))"
  shows "\<exists>b. tbl i = Some b \<and> active b = act \<and> i \<in> set self \<and> w = work_of C tbl self act b"
proof -
  from assms obtain bk ix where
    w: "w = work_on C bk (group_bindings C tbl (exists_rs tbl self) act bk ix) ix"
    and i: "i \<in> set (group_bindings C tbl (exists_rs tbl self) act bk ix)"
    by (auto simp: pairs_of_def works_of_def Let_def work_on_def)
  from i obtain b where "i \<in> set self" "tbl i = Some b" "se_backend_id C b = bk"
    "index_id b = ix" "active b = act"
    by (auto simp: set_group_bindings set_exists_rs)
  then show ?thesis using w by (auto simp: work_of_def)
qed

subsection \<open>The result of \<open>recompute_json\<close>\<close>

lemma recompute_json_unfold:
  "recompute_json C self force env =
     (let R = loop_state C force env self; errs = fst (snd R); tbc = snd (snd R) in
      (if errs \<noteq> [] then ''Validation errors'' @ newline @ join newline errs else [],
       if tbc \<noteq> [] then orm_write tbc to_be_checked_vals (fst R) else fst R))"
proof -
  have "work_by_index C (recompute_work C force) self True (env, [], []) = loop_state C force env self"
    by (simp add: work_by_index_fold [OF recompute_work_keeps_static] fold_recompute_work_pairs
          loop_state_def loop_pairs_def)
  moreover have "write_binding tbc (no_vals\<lparr>v_sync_state := Some To_be_checked\<rparr>) e
                   = orm_write tbc to_be_checked_vals e" for tbc and e :: "'a env"
    by (simp add: write_binding_plain to_be_checked_vals_def no_vals_def)
  ultimately show ?thesis
    by (cases "loop_state C force env self") (simp add: recompute_json_def Let_def)
qed

lemma distinct_loop_pairs: "distinct self \<Longrightarrow> distinct (map snd (loop_pairs C env self))"
  by (simp add: loop_pairs_def map_snd_pairs_of distinct_works_records)

lemma set_loop_ids:
  "snd ` set (loop_pairs C env self) = {i \<in> set self. \<exists>b. table env i = Some b \<and> active b}"
  using set_works_records [of C "table env" self True]
  by (simp add: loop_pairs_def map_snd_pairs_of [symmetric])

lemma loop_pairs_D:
  "p \<in> set (loop_pairs C env self) \<Longrightarrow>
     \<exists>b. table env (snd p) = Some b \<and> active b \<and> snd p \<in> set self
        \<and> fst p = work_of C (table env) self True b"
  using pairs_of_works_of_D [of "fst p" "snd p" C "table env" self True]
  by (auto simp: loop_pairs_def)

lemma loop_state_facts:
  assumes "distinct self"
  shows "table (fst (loop_state C force env self)) j
           = (case find (\<lambda>p. snd p = j) (loop_pairs C env self) of None \<Rightarrow> table env j
              | Some p \<Rightarrow> row_after C force (table env) p)"
    and "writes (fst (loop_state C force env self))
           = writes env @ map (write_of C (table env)) (filter (storing C force (table env)) (loop_pairs C env self))"
    and "fst (snd (loop_state C force env self))
           = map (msg_of C (table env)) (filter (failing C (table env)) (loop_pairs C env self))"
    and "snd (snd (loop_state C force env self))
           = map snd (filter (failing C (table env)) (loop_pairs C env self))"
  using loop_result [OF distinct_loop_pairs [OF assms, of C env], of "table env" env C force "[]" "[]"]
  by (simp_all add: loop_state_def)

lemma failing_ids:
  "set (map snd (filter (failing C (table env)) (loop_pairs C env self)))
     = {i \<in> set self. \<exists>b. table env i = Some b \<and> active b
          \<and> fails C (work_of C (table env) self True b) i b}"
proof (intro set_eqI iffI)
  fix i
  assume "i \<in> set (map snd (filter (failing C (table env)) (loop_pairs C env self)))"
  then obtain p where p: "p \<in> set (loop_pairs C env self)" "failing C (table env) p" "snd p = i"
    by auto
  from loop_pairs_D [OF p(1)] p(2,3)
  show "i \<in> {i \<in> set self. \<exists>b. table env i = Some b \<and> active b
          \<and> fails C (work_of C (table env) self True b) i b}"
    by (auto simp: failing_def)
next
  fix i
  assume "i \<in> {i \<in> set self. \<exists>b. table env i = Some b \<and> active b
          \<and> fails C (work_of C (table env) self True b) i b}"
  then obtain b where b: "i \<in> set self" "table env i = Some b" "active b"
    "fails C (work_of C (table env) self True b) i b" by auto
  then have "i \<in> snd ` set (loop_pairs C env self)" by (simp add: set_loop_ids)
  then obtain p where p: "p \<in> set (loop_pairs C env self)" "snd p = i" by auto
  from loop_pairs_D [OF p(1)] p(2) b have "failing C (table env) p"
    by (auto simp: failing_def)
  with p show "i \<in> set (map snd (filter (failing C (table env)) (loop_pairs C env self)))"
    by force
qed

lemma table_recompute_json:
  assumes "distinct self"
  shows "table (snd (recompute_json C self force env)) j
           = map_option (recompute_row C force (table env) self j) (table env j)"
proof -
  let ?ps = "loop_pairs C env self"
  let ?R = "loop_state C force env self"
  let ?tbc = "snd (snd ?R)"
  let ?T = "table env"
  note facts = loop_state_facts [OF assms, of C force env]
  have tbc: "set ?tbc = {i \<in> set self. \<exists>b. ?T i = Some b \<and> active b
          \<and> fails C (work_of C ?T self True b) i b}"
    using failing_ids [of C env self] by (simp add: facts(4))
  have final: "table (snd (recompute_json C self force env)) j
      = (if j \<in> set ?tbc then map_option (apply_vals to_be_checked_vals) (table (fst ?R) j)
         else table (fst ?R) j)"
    by (auto simp: recompute_json_unfold Let_def table_orm_write)
  have av: "apply_vals to_be_checked_vals b = b\<lparr>sync_state := To_be_checked\<rparr>" for b :: "'a binding"
    by (simp add: to_be_checked_vals_def no_vals_def apply_vals_def)
  show ?thesis
  proof (cases "find (\<lambda>p. snd p = j) ?ps")
    case None
    then have nin: "j \<notin> snd ` set ?ps" by (force simp: find_None_iff)
    then have a: "\<not> (j \<in> set self \<and> (\<exists>b. ?T j = Some b \<and> active b))"
      by (simp add: set_loop_ids)
    then have "j \<notin> set ?tbc" by (auto simp: tbc)
    then have "table (snd (recompute_json C self force env)) j = ?T j"
      by (simp add: final facts(1) None)
    moreover have "map_option (recompute_row C force ?T self j) (?T j) = ?T j"
      using a by (cases "?T j") (auto simp: recompute_row_def)
    ultimately show ?thesis by simp
  next
    case (Some p)
    then have p: "p \<in> set ?ps" "snd p = j"
      by (auto simp: find_Some_iff in_set_conv_nth)
    from loop_pairs_D [OF p(1)] p(2) obtain b where
      b: "?T j = Some b" "active b" "j \<in> set self" "fst p = work_of C ?T self True b"
      by auto
    have row: "table (fst ?R) j = row_after C force ?T p"
      by (simp add: facts(1) Some)
    show ?thesis
    proof (cases "fails C (work_of C ?T self True b) j b")
      case True
      then have "j \<in> set ?tbc" using b by (auto simp: tbc)
      moreover have "row_after C force ?T p = Some b"
        using True b p by (simp add: row_after_def stores_def)
      ultimately show ?thesis
        using True b by (simp add: final row av recompute_row_def)
    next
      case False
      then have "j \<notin> set ?tbc" using b by (auto simp: tbc)
      then show ?thesis
        using False b p by (simp add: final row row_after_def stores_def recompute_row_def)
    qed
  qed
qed

lemma writes_recompute_json:
  assumes "distinct self"
  shows "writes (snd (recompute_json C self force env))
           = writes env
             @ map (write_of C (table env)) (filter (storing C force (table env)) (loop_pairs C env self))
             @ (let tbc = map snd (filter (failing C (table env)) (loop_pairs C env self))
                in if tbc = [] then [] else [(tbc, to_be_checked_vals)])"
  using loop_state_facts(2,4) [OF assms, of C force env]
  by (simp add: recompute_json_unfold Let_def writes_orm_write)

lemma report_recompute_json:
  assumes "distinct self"
  shows "fst (recompute_json C self force env)
           = (let errs = map (msg_of C (table env)) (filter (failing C (table env)) (loop_pairs C env self))
              in if errs = [] then [] else ''Validation errors'' @ newline @ join newline errs)"
  using loop_state_facts(3) [OF assms, of C force env]
  by (simp add: recompute_json_unfold Let_def)

subsection \<open>Concrete checks of the statements on writing, deleting and reading\<close>

theorem get_export_data_reads_witness:
  "table example_env 2 = Some (example_binding 1 Done (Some 5) True)
     \<and> get_export_data [2] example_env = (Inr (Some 5), example_env)"
  using get_export_data_reads [of example_env 2 "example_binding 1 Done (Some 5) True"]
  by (simp add: example_env_def example_binding_def)

text \<open>
  Claim C4 as stated fails for a binding in state \<open>new\<close> when the dictionary also carries
  a \<open>sync_state\<close>: deactivating binding 1 (state \<open>new\<close>) with \<open>sync_state = done\<close> in
  the same dictionary leaves it in state \<open>done\<close>, not \<open>new\<close>.
\<close>

theorem write_new_with_state_counterexample:
  "table (write_binding [1] (no_vals\<lparr>v_active := Some False, v_sync_state := Some Done\<rparr>) example_env) 1
     = Some (example_binding 1 Done None False)"
  by (simp add: table_write_binding example_env_def example_binding_def no_vals_def apply_vals_def)

theorem write_deactivate_witness:
  "table (write_binding [1, 2] (no_vals\<lparr>v_active := Some False\<rparr>) example_env) 2
      = Some (example_binding 1 To_update (Some 5) False)
   \<and> table (write_binding [1, 2] (no_vals\<lparr>v_active := Some False\<rparr>) example_env) 1
      = Some (example_binding 1 New None False)"
proof -
  have v: "v_active (no_vals\<lparr>v_active := Some False\<rparr> :: nat vals) = Some False" by simp
  have r2: "table example_env 2 = Some (example_binding 1 Done (Some 5) True)"
    and r1: "table example_env 1 = Some (example_binding 1 New None True)"
    by (simp_all add: example_env_def)
  from write_deactivate [OF v _ r2, of "[1, 2]"] write_deactivate [OF v _ r1, of "[1, 2]"]
  show ?thesis
    by (auto simp: example_binding_def no_vals_def)
qed

theorem write_deactivate_overrides_witness:
  "\<exists>b'. table (write_binding [2] (no_vals\<lparr>v_active := Some False, v_sync_state := Some Scheduled\<rparr>)
              example_env) 2 = Some b' \<and> sync_state b' = To_update"
proof -
  have "table example_env 2 = Some (example_binding 1 Done (Some 5) True)"
    by (simp add: example_env_def)
  from write_deactivate_overrides [OF _ _ _ this, of "no_vals\<lparr>v_active := Some False, v_sync_state := Some Scheduled\<rparr>" Scheduled "[2]"]
  show ?thesis by (simp add: example_binding_def)
qed

theorem unlink_all_or_nothing_witness:
  "unlink example_collaborators [1, 4] example_env = (Inr True, orm_unlink [1, 4] example_env)
   \<and> table (snd (unlink example_collaborators [1, 4] example_env)) 1 = None
   \<and> table (snd (unlink example_collaborators [1, 4] example_env)) 4 = None
   \<and> unlink example_collaborators [1, 2, 4] example_env
       = (Inl (UserError (msg_cannot_delete_active example_collaborators 2
                            (example_binding 1 Done (Some 5) True))), example_env)"
proof -
  have d: "set [1, 4] \<subseteq> dom (table example_env)" "set [1, 2, 4] \<subseteq> dom (table example_env)"
    by (simp_all add: example_env_def)
  have ok: "\<forall>i\<in>set [1, 4]. \<forall>b. table example_env i = Some b \<longrightarrow> may_unlink b"
    by (simp add: example_env_def example_binding_def may_unlink_def)
  have bad: "[1, 2, 4] = [1] @ 2 # [4]
      \<and> (\<forall>j\<in>set [1::nat]. \<forall>b'. table example_env j = Some b' \<longrightarrow> may_unlink b')
      \<and> table example_env 2 = Some (example_binding 1 Done (Some 5) True)
      \<and> \<not> may_unlink (example_binding 1 Done (Some 5) True)"
    by (simp add: example_env_def example_binding_def may_unlink_def)
  from unlink_all_or_nothing [OF d(1), of example_collaborators] ok
  have a: "unlink example_collaborators [1, 4] example_env = (Inr True, orm_unlink [1, 4] example_env)
      \<and> (\<forall>i\<in>set [1, 4]. table (snd (unlink example_collaborators [1, 4] example_env)) i = None)"
    by blast
  from unlink_all_or_nothing [OF d(2), of example_collaborators] bad
  have b: "unlink example_collaborators [1, 2, 4] example_env
       = (Inl (UserError (if active (example_binding 1 Done (Some 5) True)
             then msg_cannot_delete_active example_collaborators 2 (example_binding 1 Done (Some 5) True)
             else msg_cannot_delete_not_synchronized example_collaborators 2 (example_binding 1 Done (Some 5) True))),
          example_env)"
    by blast
  have "active (example_binding 1 Done (Some 5) True)" by (simp add: example_binding_def)
  with a b show ?thesis by (simp add: orm_unlink_def)
qed

subsection \<open>Statements on \<open>recompute_json\<close>\<close>

lemma join_contains: "x \<in> set xs \<Longrightarrow> \<exists>pre post. join sep xs = pre @ x @ post"
proof (induction sep xs rule: join.induct)
  case (1 sep)
  then show ?case by simp
next
  case (2 sep y)
  then have "join sep [y] = [] @ x @ []" by simp
  then show ?case by blast
next
  case (3 sep y z zs)
  show ?case
  proof (cases "x = y")
    case True
    then have "join sep (y # z # zs) = [] @ x @ (sep @ join sep (z # zs))" by simp
    then show ?thesis by blast
  next
    case False
    with 3 obtain pre post where "join sep (z # zs) = pre @ x @ post" by auto
    then have "join sep (y # z # zs) = (y @ sep @ pre) @ x @ post" by simp
    then show ?thesis by blast
  qed
qed

lemma loop_pair_of_row:
  assumes "i \<in> set self" and "table env i = Some b" and "active b"
  shows "(work_of C (table env) self True b, i) \<in> set (loop_pairs C env self)"
proof -
  from assms have "i \<in> snd ` set (loop_pairs C env self)" by (simp add: set_loop_ids)
  then obtain p where p: "p \<in> set (loop_pairs C env self)" "snd p = i" by auto
  from loop_pairs_D [OF p(1)] p(2) assms(2) have "fst p = work_of C (table env) self True b"
    by auto
  with p show ?thesis by (metis prod.collapse)
qed

text \<open>
  Claim C1. For a recordset without repeated ids: every binding whose \<open>data\<close> differs after
  \<open>recompute_json\<close> (with either value of \<open>force_export\<close>) is in state \<open>to_update\<close>
  afterwards; and each write that \<open>recompute_json\<close> adds to the trace and that carries a
  \<open>data\<close> value is a write to one binding which also carries \<open>sync_state = to_update\<close>,
  unless that binding was in state \<open>to_update\<close> already, in which case it carries no
  \<open>sync_state\<close> at all.
\<close>

theorem recompute_json_data_changed:
  assumes "distinct self"
  shows "(\<forall>j b b'. table env j = Some b \<and> table (snd (recompute_json C self force env)) j = Some b'
            \<and> data b' \<noteq> data b \<longrightarrow> sync_state b' = To_update)
       \<and> (\<exists>ws. writes (snd (recompute_json C self force env)) = writes env @ ws
            \<and> (\<forall>e\<in>set ws. v_data (snd e) \<noteq> None \<longrightarrow>
                  (\<exists>i b. fst e = [i] \<and> table env i = Some b
                     \<and> (if sync_state b = To_update then v_sync_state (snd e) = None
                         else v_sync_state (snd e) = Some To_update))))"
proof (intro conjI allI impI)
  fix j b b'
  assume a: "table env j = Some b \<and> table (snd (recompute_json C self force env)) j = Some b'
            \<and> data b' \<noteq> data b"
  then have "b' = recompute_row C force (table env) self j b"
    using table_recompute_json [OF assms, of C force env j] by auto
  with a show "sync_state b' = To_update"
    by (auto simp: recompute_row_def Let_def split: if_splits)
next
  let ?T = "table env"
  let ?ps = "loop_pairs C env self"
  let ?ws1 = "map (write_of C ?T) (filter (storing C force ?T) ?ps)"
  let ?tbc = "map snd (filter (failing C ?T) ?ps)"
  let ?ws2 = "if ?tbc = [] then [] else [(?tbc, to_be_checked_vals :: 'a vals)]"
  have w: "writes (snd (recompute_json C self force env)) = writes env @ (?ws1 @ ?ws2)"
    using writes_recompute_json [OF assms, of C force env] by (simp add: Let_def)
  have "\<exists>i b. fst e = [i] \<and> table env i = Some b
                     \<and> (if sync_state b = To_update then v_sync_state (snd e) = None
                         else v_sync_state (snd e) = Some To_update)"
    if e: "e \<in> set (?ws1 @ ?ws2)" and d: "v_data (snd e) \<noteq> None" for e
  proof -
    have "e \<notin> set ?ws2"
      using d by (auto simp: to_be_checked_vals_def no_vals_def split: if_splits)
    with e obtain p where p: "p \<in> set ?ps" "storing C force ?T p" "e = write_of C ?T p"
      by auto
    from p(2) obtain b where b: "?T (snd p) = Some b"
      by (auto simp: storing_def split: option.splits)
    then show ?thesis
      using p(3) by (auto simp: write_of_def data_vals_def no_vals_def)
  qed
  with w show "\<exists>ws. writes (snd (recompute_json C self force env)) = writes env @ ws
            \<and> (\<forall>e\<in>set ws. v_data (snd e) \<noteq> None \<longrightarrow>
                  (\<exists>i b. fst e = [i] \<and> table env i = Some b
                     \<and> (if sync_state b = To_update then v_sync_state (snd e) = None
                         else v_sync_state (snd e) = Some To_update)))"
    by blast
qed

text \<open>
  Claim C5. In a batch without repeated ids, an active binding whose candidate document
  fails validation ends in state \<open>to_be_checked\<close> with every other field, \<open>data\<close> included,
  as before, and its message is part of the returned report. Every binding of the batch has
  the outcome that its own candidate decides (\<open>recompute_row\<close>), whatever happens to the
  others. The trace grows by the writes of single bindings, none of which sets
  \<open>to_be_checked\<close>, followed by one final write of \<open>sync_state = to_be_checked\<close> to the
  recordset of all bindings that failed.
\<close>

theorem recompute_json_validation_failure:
  assumes "distinct self" and "i \<in> set self" and "table env i = Some b" and "active b"
    and "fails C (work_of C (table env) self True b) i b"
  shows "table (snd (recompute_json C self force env)) i = Some (b\<lparr>sync_state := To_be_checked\<rparr>)
       \<and> (\<exists>pre post. fst (recompute_json C self force env)
             = pre @ error_msg C (work_of C (table env) self True b) i b @ post)
       \<and> (\<forall>j. table (snd (recompute_json C self force env)) j
             = map_option (recompute_row C force (table env) self j) (table env j))
       \<and> (\<exists>ws tbc. writes (snd (recompute_json C self force env))
                      = writes env @ ws @ [(tbc, to_be_checked_vals)]
             \<and> set tbc = {j \<in> set self. \<exists>b'. table env j = Some b' \<and> active b'
                              \<and> fails C (work_of C (table env) self True b') j b'}
             \<and> (\<forall>e\<in>set ws. v_sync_state (snd e) \<noteq> Some To_be_checked
                    \<and> (\<exists>j. fst e = [j] \<and> j \<notin> set tbc)))"
proof (intro conjI allI)
  let ?T = "table env"
  let ?ps = "loop_pairs C env self"
  let ?w = "work_of C ?T self True b"
  let ?tbc = "map snd (filter (failing C ?T) ?ps)"
  let ?ws1 = "map (write_of C ?T) (filter (storing C force ?T) ?ps)"
  show "table (snd (recompute_json C self force env)) i = Some (b\<lparr>sync_state := To_be_checked\<rparr>)"
    using assms by (simp add: table_recompute_json recompute_row_def)
  show "table (snd (recompute_json C self force env)) j
             = map_option (recompute_row C force (table env) self j) (table env j)" for j
    by (rule table_recompute_json [OF assms(1)])
  have pin: "(?w, i) \<in> set ?ps"
    by (rule loop_pair_of_row [OF assms(2,3,4)])
  have fl: "failing C ?T (?w, i)"
    using assms by (simp add: failing_def)
  have msg: "error_msg C ?w i b \<in> set (map (msg_of C ?T) (filter (failing C ?T) ?ps))"
  proof -
    have "msg_of C ?T (?w, i) = error_msg C ?w i b" using assms(3) by (simp add: msg_of_def)
    moreover have "(?w, i) \<in> set (filter (failing C ?T) ?ps)" using pin fl by simp
    ultimately show ?thesis by (metis image_eqI set_map)
  qed
  then have ne: "map (msg_of C ?T) (filter (failing C ?T) ?ps) \<noteq> []"
    by (metis empty_iff list.set(1))
  from join_contains [OF msg, of newline] obtain pre post where
    "join newline (map (msg_of C ?T) (filter (failing C ?T) ?ps))
       = pre @ error_msg C ?w i b @ post" by blast
  then have "fst (recompute_json C self force env)
      = (''Validation errors'' @ newline @ pre) @ error_msg C ?w i b @ post"
    using ne by (simp add: report_recompute_json [OF assms(1)] Let_def)
  then show "\<exists>pre post. fst (recompute_json C self force env) = pre @ error_msg C ?w i b @ post"
    by blast
  have tbcset: "set ?tbc = {j \<in> set self. \<exists>b'. ?T j = Some b' \<and> active b'
                              \<and> fails C (work_of C ?T self True b') j b'}"
    by (rule failing_ids)
  have iin: "i \<in> set ?tbc" unfolding tbcset using assms by blast
  then have tne: "?tbc \<noteq> []" by (metis empty_iff list.set(1))
  have w: "writes (snd (recompute_json C self force env)) = writes env @ ?ws1 @ [(?tbc, to_be_checked_vals)]"
    using writes_recompute_json [OF assms(1), of C force env] tne by (simp add: Let_def)
  have each: "v_sync_state (snd e) \<noteq> Some To_be_checked \<and> (\<exists>j. fst e = [j] \<and> j \<notin> set ?tbc)"
    if "e \<in> set ?ws1" for e
  proof -
    from that obtain p where p: "p \<in> set ?ps" "storing C force ?T p" "e = write_of C ?T p"
      by auto
    from loop_pairs_D [OF p(1)] obtain b' where
      b': "?T (snd p) = Some b'" "active b'" "snd p \<in> set self" "fst p = work_of C ?T self True b'"
      by auto
    from p(2) b' have "\<not> fails C (work_of C ?T self True b') (snd p) b'"
      by (simp add: storing_def stores_def)
    then have "snd p \<notin> set ?tbc" unfolding tbcset using b'(1) by auto
    moreover have "v_sync_state (snd e) \<noteq> Some To_be_checked"
      using p(3) b'(1) by (simp add: write_of_def data_vals_def no_vals_def)
    ultimately show ?thesis using p(3) by (simp add: write_of_def)
  qed
  show "\<exists>ws tbc. writes (snd (recompute_json C self force env))
                      = writes env @ ws @ [(tbc, to_be_checked_vals)]
             \<and> set tbc = {j \<in> set self. \<exists>b'. table env j = Some b' \<and> active b'
                              \<and> fails C (work_of C (table env) self True b') j b'}
             \<and> (\<forall>e\<in>set ws. v_sync_state (snd e) \<noteq> Some To_be_checked
                    \<and> (\<exists>j. fst e = [j] \<and> j \<notin> set tbc))"
    using w tbcset each by blast
qed

text \<open>
  Claim C7, as the code has it. With \<open>force_export\<close> true, an active binding of a recordset
  without repeated ids whose candidate passes validation has the candidate written to
  \<open>data\<close> by a write of its own and ends in state \<open>to_update\<close>, also when the candidate
  equals the stored \<open>data\<close>.
\<close>

theorem recompute_json_force:
  assumes "distinct self" and "i \<in> set self" and "table env i = Some b" and "active b"
    and "\<not> fails C (work_of C (table env) self True b) i b"
  shows "table (snd (recompute_json C self True env)) i
           = Some (b\<lparr>data := Some (candidate C (work_of C (table env) self True b) i b),
                     sync_state := To_update\<rparr>)
       \<and> (\<exists>ws v. writes (snd (recompute_json C self True env)) = writes env @ ws
             \<and> ([i], v) \<in> set ws
             \<and> v_data v = Some (Some (candidate C (work_of C (table env) self True b) i b)))"
proof (intro conjI)
  let ?T = "table env"
  let ?ps = "loop_pairs C env self"
  let ?w = "work_of C ?T self True b"
  show "table (snd (recompute_json C self True env)) i
           = Some (b\<lparr>data := Some (candidate C ?w i b), sync_state := To_update\<rparr>)"
    using assms by (simp add: table_recompute_json recompute_row_def)
  have pin: "(?w, i) \<in> set ?ps"
    by (rule loop_pair_of_row [OF assms(2,3,4)])
  have "storing C True ?T (?w, i)"
    using assms by (simp add: storing_def stores_def)
  with pin have "write_of C ?T (?w, i) \<in> set (map (write_of C ?T) (filter (storing C True ?T) ?ps))"
    by auto
  moreover have "write_of C ?T (?w, i) = ([i], data_vals C ?w i b)"
    using assms(3) by (simp add: write_of_def)
  moreover have "v_data (data_vals C ?w i b) = Some (Some (candidate C ?w i b))"
    by (simp add: data_vals_def no_vals_def)
  ultimately show "\<exists>ws v. writes (snd (recompute_json C self True env)) = writes env @ ws
             \<and> ([i], v) \<in> set ws
             \<and> v_data v = Some (Some (candidate C ?w i b))"
    using writes_recompute_json [OF assms(1), of C True env]
    by (metis Un_iff set_append)
qed

lemmas example_defs =
  example_env_def example_binding_def example_collaborators_def work_of_def group_bindings_def
  filtered_def exists_rs_def se_backend_id_def work_on_def fails_def candidate_def
  validate_record_def truthy_def recompute_json_work_ctx_def recompute_row_def

theorem recompute_json_data_changed_witness:
  "distinct [1, 2, 3, 4 :: nat]
   \<and> table example_env 1 = Some (example_binding 1 New None True)
   \<and> table (snd (recompute_json example_collaborators [1, 2, 3, 4] False example_env)) 1
       = Some (example_binding 1 To_update (Some 1) True)"
proof -
  have d: "distinct [1, 2, 3, 4 :: nat]" by simp
  have r: "table (snd (recompute_json example_collaborators [1, 2, 3, 4] False example_env)) 1
       = Some (example_binding 1 To_update (Some 1) True)"
    by (simp add: table_recompute_json example_defs)
  have "table example_env 1 = Some (example_binding 1 New None True)"
    by (simp add: example_env_def)
  moreover from recompute_json_data_changed [OF d, of example_env example_collaborators False]
  have "\<forall>j b b'. table example_env j = Some b
          \<and> table (snd (recompute_json example_collaborators [1, 2, 3, 4] False example_env)) j = Some b'
          \<and> data b' \<noteq> data b \<longrightarrow> sync_state b' = To_update"
    by blast
  ultimately show ?thesis using d r by simp
qed

theorem recompute_json_validation_failure_witness:
  "fails example_collaborators
      (work_of example_collaborators (table example_env) [1, 2, 3] True
         (example_binding 1 Done (Some 5) True)) 2 (example_binding 1 Done (Some 5) True)
   \<and> table (snd (recompute_json example_collaborators [1, 2, 3] False example_env)) 2
       = Some (example_binding 1 To_be_checked (Some 5) True)
   \<and> table (snd (recompute_json example_collaborators [1, 2, 3] False example_env)) 1
       = Some (example_binding 1 To_update (Some 1) True)
   \<and> table (snd (recompute_json example_collaborators [1, 2, 3] False example_env)) 3
       = Some (example_binding 12 Done (Some 3) True)"
proof -
  have d: "distinct [1, 2, 3 :: nat]" "(2::nat) \<in> set [1, 2, 3]" by simp_all
  have r: "table example_env 2 = Some (example_binding 1 Done (Some 5) True)"
    by (simp add: example_env_def)
  have a: "active (example_binding 1 Done (Some 5) True)" by (simp add: example_binding_def)
  have f: "fails example_collaborators
      (work_of example_collaborators (table example_env) [1, 2, 3] True
         (example_binding 1 Done (Some 5) True)) 2 (example_binding 1 Done (Some 5) True)"
    by (simp add: example_defs)
  note t = recompute_json_validation_failure [OF d r a f, of False]
  from t have t1: "table (snd (recompute_json example_collaborators [1, 2, 3] False example_env)) 2
       = Some ((example_binding 1 Done (Some 5) True)\<lparr>sync_state := To_be_checked\<rparr>)"
    by blast
  from t have t3: "\<And>j. table (snd (recompute_json example_collaborators [1, 2, 3] False example_env)) j
             = map_option (recompute_row example_collaborators False (table example_env) [1, 2, 3] j)
                 (table example_env j)"
    by blast
  have r2: "table (snd (recompute_json example_collaborators [1, 2, 3] False example_env)) 2
       = Some (example_binding 1 To_be_checked (Some 5) True)"
    unfolding t1 by (simp add: example_binding_def)
  have r1: "table (snd (recompute_json example_collaborators [1, 2, 3] False example_env)) 1
       = Some (example_binding 1 To_update (Some 1) True)"
    unfolding t3 by (simp add: example_defs)
  have r3: "table (snd (recompute_json example_collaborators [1, 2, 3] False example_env)) 3
       = Some (example_binding 12 Done (Some 3) True)"
    unfolding t3 by (simp add: example_defs)
  show ?thesis
    using f r1 r2 r3 by blast
qed

text \<open>
  Claim C7 as stated fails for a binding whose candidate fails validation and for an inactive
  binding. With \<open>force_export\<close> true, binding 2 (its candidate is refused by the validator)
  ends in state \<open>to_be_checked\<close> with its stored \<open>data\<close> untouched, and binding 4 (inactive)
  is not processed at all.
\<close>

theorem recompute_json_force_counterexample:
  "table (snd (recompute_json example_collaborators [2] True example_env)) 2
       = Some (example_binding 1 To_be_checked (Some 5) True)
   \<and> table (snd (recompute_json example_collaborators [4] True example_env)) 4
       = Some (example_binding 1 Done None False)
   \<and> writes (snd (recompute_json example_collaborators [4] True example_env)) = []"
  by (simp add: table_recompute_json writes_recompute_json loop_pairs_def works_of_def mapped_def
        unique_def pairs_of_def failing_def storing_def to_be_checked_vals_def example_defs)

theorem recompute_json_force_witness:
  "\<not> fails example_collaborators
      (work_of example_collaborators (table example_env) [3] True
         (example_binding 12 Done (Some 3) True)) 3 (example_binding 12 Done (Some 3) True)
   \<and> candidate example_collaborators
      (work_of example_collaborators (table example_env) [3] True
         (example_binding 12 Done (Some 3) True)) 3 (example_binding 12 Done (Some 3) True) = 3
   \<and> table (snd (recompute_json example_collaborators [3] True example_env)) 3
       = Some (example_binding 12 To_update (Some 3) True)"
proof -
  have d: "distinct [3 :: nat]" "(3::nat) \<in> set [3]" by simp_all
  have r: "table example_env 3 = Some (example_binding 12 Done (Some 3) True)"
    by (simp add: example_env_def)
  have a: "active (example_binding 12 Done (Some 3) True)" by (simp add: example_binding_def)
  have f: "\<not> fails example_collaborators
      (work_of example_collaborators (table example_env) [3] True
         (example_binding 12 Done (Some 3) True)) 3 (example_binding 12 Done (Some 3) True)"
    by (simp add: example_defs)
  have c: "candidate example_collaborators
      (work_of example_collaborators (table example_env) [3] True
         (example_binding 12 Done (Some 3) True)) 3 (example_binding 12 Done (Some 3) True) = 3"
    by (simp add: example_defs)
  from recompute_json_force [OF d r a f]
  have "table (snd (recompute_json example_collaborators [3] True example_env)) 3
       = Some ((example_binding 12 Done (Some 3) True)\<lparr>data := Some (candidate example_collaborators
      (work_of example_collaborators (table example_env) [3] True
         (example_binding 12 Done (Some 3) True)) 3 (example_binding 12 Done (Some 3) True)),
            sync_state := To_update\<rparr>)"
    by blast
  then show ?thesis using f c by (simp add: example_binding_def)
qed

subsection \<open>Two calls in a row\<close>

lemma works_of_static:
  assumes "static tbl = static tbl'"
  shows "works_of C tbl self act = works_of C tbl' self act"
  unfolding works_of_def Let_def
  by (simp only: exists_rs_static [OF assms] mapped_index_static [OF assms]
        mapped_backend_static [OF assms] group_bindings_static [OF assms])

lemma work_of_static:
  assumes "static tbl = static tbl'" and "index_id b' = index_id b"
  shows "work_of C tbl self act b' = work_of C tbl' self act b"
  unfolding work_of_def
  by (simp only: exists_rs_static [OF assms(1)] group_bindings_static [OF assms(1)]
        se_backend_id_def assms(2))

lemma recompute_row_shape:
  "recompute_row C force T self j b
     = b\<lparr>data := data (recompute_row C force T self j b),
         sync_state := sync_state (recompute_row C force T self j b)\<rparr>"
  by (simp add: recompute_row_def Let_def)

lemma static_after_recompute:
  "static (\<lambda>j. map_option (recompute_row C force T self j) (T j)) = static T"
proof (rule ext)
  fix j
  show "static (\<lambda>j. map_option (recompute_row C force T self j) (T j)) j = static T j"
    by (cases "T j") (simp_all add: static_def recompute_row_def Let_def)
qed

lemma recompute_row_again:
  assumes "mapper_independent C" and "static T1 = static T" and "j \<in> set self" and "active b"
  shows "work_of C T1 self True (recompute_row C False T self j b) = work_of C T self True b"
    and "fails C (work_of C T self True b) j (recompute_row C False T self j b)
           = fails C (work_of C T self True b) j b"
    and "fails C (work_of C T self True b) j b
           \<Longrightarrow> sync_state (recompute_row C False T self j b) = To_be_checked"
    and "\<not> stores C False (work_of C T self True b) j (recompute_row C False T self j b)"
    and "recompute_row C False T1 self j (recompute_row C False T self j b)
           = recompute_row C False T self j b"
proof -
  let ?w = "work_of C T self True b"
  let ?b1 = "recompute_row C False T self j b"
  have ix: "index_id ?b1 = index_id b" and ac: "active ?b1"
    using assms(4) by (simp_all add: recompute_row_def Let_def)
  show w1: "work_of C T1 self True ?b1 = ?w"
    by (rule work_of_static [OF assms(2) ix])
  have cand: "candidate C ?w j ?b1 = candidate C ?w j b"
    using assms(1) recompute_row_shape [of C False T self j b]
    unfolding candidate_def mapper_independent_def by metis
  then show f: "fails C ?w j ?b1 = fails C ?w j b"
    by (simp add: fails_def)
  show "fails C ?w j b \<Longrightarrow> sync_state ?b1 = To_be_checked"
    using assms(3,4) by (simp add: recompute_row_def)
  have dat: "\<not> fails C ?w j b \<Longrightarrow> data ?b1 = Some (candidate C ?w j b)"
    using assms(3,4) by (simp add: recompute_row_def Let_def)
  show "\<not> stores C False ?w j ?b1"
    using dat by (auto simp: stores_def f cand)
  show "recompute_row C False T1 self j ?b1 = ?b1"
  proof (cases "fails C ?w j b")
    case True
    then have "recompute_row C False T1 self j ?b1 = ?b1\<lparr>sync_state := To_be_checked\<rparr>"
      using assms(3) ac f by (simp add: recompute_row_def [of C False T1] w1)
    also have "\<dots> = ?b1" using True assms(3,4) by (simp add: recompute_row_def)
    finally show ?thesis .
  next
    case False
    then show ?thesis
      using assms(3) ac f dat cand by (simp add: recompute_row_def [of C False T1] w1)
  qed
qed

text \<open>
  Claim C6, as the code has it. Let the mapper give the same candidate whatever the
  \<open>data\<close> and \<open>sync_state\<close> of the binding are, and let the recordset have no repeated ids.
  Then a second \<open>recompute_json\<close> without force, right after a first one, leaves the table
  of bindings exactly as the first call left it and writes no \<open>data\<close>. The only write it
  can issue is the final write of \<open>sync_state = to_be_checked\<close> on the bindings whose
  candidate fails validation, which are in that state already; when no candidate fails,
  the second call performs no write at all.
\<close>

theorem recompute_json_twice:
  assumes "distinct self" and "mapper_independent C"
  shows "table (snd (recompute_json C self False (snd (recompute_json C self False env))))
           = table (snd (recompute_json C self False env))
       \<and> (\<exists>tbc. writes (snd (recompute_json C self False (snd (recompute_json C self False env))))
                  = writes (snd (recompute_json C self False env))
                    @ (if tbc = [] then [] else [(tbc, to_be_checked_vals)])
             \<and> (\<forall>j\<in>set tbc. \<exists>b. table (snd (recompute_json C self False env)) j = Some b
                                \<and> sync_state b = To_be_checked)
             \<and> set tbc = {j \<in> set self. \<exists>b. table env j = Some b \<and> active b
                              \<and> fails C (work_of C (table env) self True b) j b})"
proof -
  let ?T = "table env"
  let ?env1 = "snd (recompute_json C self False env)"
  let ?T1 = "table ?env1"
  let ?env2 = "snd (recompute_json C self False ?env1)"
  let ?ps1 = "loop_pairs C ?env1 self"
  let ?tbc = "map snd (filter (failing C ?T1) ?ps1)"
  have T1: "?T1 = (\<lambda>j. map_option (recompute_row C False ?T self j) (?T j))"
    by (rule ext) (rule table_recompute_json [OF assms(1)])
  have st: "static ?T1 = static ?T"
    unfolding T1 by (rule static_after_recompute)
  note again = recompute_row_again [OF assms(2) st]
  have tab: "table ?env2 = ?T1"
  proof (rule ext)
    fix j
    show "table ?env2 j = ?T1 j"
    proof (cases "?T j")
      case None
      then show ?thesis by (simp add: table_recompute_json [OF assms(1)])
    next
      case (Some b)
      let ?b1 = "recompute_row C False ?T self j b"
      have t1: "?T1 j = Some ?b1" using Some by (simp add: table_recompute_json [OF assms(1)])
      have "recompute_row C False ?T1 self j ?b1 = ?b1"
      proof (cases "j \<in> set self \<and> active b")
        case True
        then show ?thesis using again(5) [of j self b] by simp
      next
        case False
        then show ?thesis by (auto simp: recompute_row_def)
      qed
      then show ?thesis
        using t1 table_recompute_json [OF assms(1), of C False ?env1 j] by simp
    qed
  qed
  have nostore: "filter (storing C False ?T1) ?ps1 = []"
  proof -
    have "\<not> storing C False ?T1 p" if "p \<in> set ?ps1" for p
    proof -
      from loop_pairs_D [OF that] obtain b1 where
        b1: "?T1 (snd p) = Some b1" "active b1" "snd p \<in> set self"
            "fst p = work_of C ?T1 self True b1" by auto
      from b1(1) obtain b where b: "?T (snd p) = Some b"
        "b1 = recompute_row C False ?T self (snd p) b"
        by (auto simp: table_recompute_json [OF assms(1)])
      have ab: "active b" using b1(2) b(2) by (simp add: recompute_row_def Let_def split: if_splits)
      have "fst p = work_of C ?T self True b"
        using again(1) [OF b1(3) ab] b1(4) b(2) by simp
      then show ?thesis
        using again(4) [OF b1(3) ab] b1(1) b(2) by (simp add: storing_def)
    qed
    then show ?thesis by (simp add: filter_empty_conv)
  qed
  have w: "writes ?env2 = writes ?env1 @ (if ?tbc = [] then [] else [(?tbc, to_be_checked_vals)])"
    using writes_recompute_json [OF assms(1), of C False ?env1] nostore by (simp add: Let_def)
  have tbc1: "set ?tbc = {j \<in> set self. \<exists>b1. ?T1 j = Some b1 \<and> active b1
                              \<and> fails C (work_of C ?T1 self True b1) j b1}"
    by (rule failing_ids)
  have tbc: "set ?tbc = {j \<in> set self. \<exists>b. ?T j = Some b \<and> active b
                              \<and> fails C (work_of C ?T self True b) j b}"
    and chk: "\<forall>j\<in>set ?tbc. \<exists>b. ?T1 j = Some b \<and> sync_state b = To_be_checked"
  proof -
    have key: "(\<exists>b1. ?T1 j = Some b1 \<and> active b1 \<and> fails C (work_of C ?T1 self True b1) j b1)
        \<longleftrightarrow> (\<exists>b. ?T j = Some b \<and> active b \<and> fails C (work_of C ?T self True b) j b)"
      and key2: "(\<exists>b. ?T j = Some b \<and> active b \<and> fails C (work_of C ?T self True b) j b)
         \<Longrightarrow> \<exists>b1. ?T1 j = Some b1 \<and> sync_state b1 = To_be_checked"
      if j: "j \<in> set self" for j
    proof -
      show "(\<exists>b1. ?T1 j = Some b1 \<and> active b1 \<and> fails C (work_of C ?T1 self True b1) j b1)
        \<longleftrightarrow> (\<exists>b. ?T j = Some b \<and> active b \<and> fails C (work_of C ?T self True b) j b)"
      proof (cases "?T j")
        case None
        then show ?thesis by (simp add: table_recompute_json [OF assms(1)])
      next
        case (Some b)
        let ?b1 = "recompute_row C False ?T self j b"
        have t1: "?T1 j = Some ?b1" using Some by (simp add: table_recompute_json [OF assms(1)])
        have a1: "active ?b1 = active b" by (simp add: recompute_row_def Let_def)
        show ?thesis
        proof (cases "active b")
          case True
          show ?thesis
            using again(1,2) [OF j True] Some t1 a1 by simp
        next
          case False
          then show ?thesis using Some t1 a1 by simp
        qed
      qed
      show "\<exists>b1. ?T1 j = Some b1 \<and> sync_state b1 = To_be_checked"
        if "\<exists>b. ?T j = Some b \<and> active b \<and> fails C (work_of C ?T self True b) j b"
      proof -
        from that obtain b where b: "?T j = Some b" "active b" "fails C (work_of C ?T self True b) j b"
          by blast
        then show ?thesis
          using again(3) [OF j b(2,3)] by (simp add: table_recompute_json [OF assms(1)])
      qed
    qed
    show "set ?tbc = {j \<in> set self. \<exists>b. ?T j = Some b \<and> active b
                              \<and> fails C (work_of C ?T self True b) j b}"
      unfolding tbc1 using key by blast
    then show "\<forall>j\<in>set ?tbc. \<exists>b. ?T1 j = Some b \<and> sync_state b = To_be_checked"
      using key2 by blast
  qed
  show ?thesis
    using tab w tbc chk by blast
qed

text \<open>
  Claim C6 as stated fails when a candidate fails validation: the second call issues the
  write of \<open>sync_state = to_be_checked\<close> again. With binding 2 alone, the trace after the
  second call is the trace after the first call followed by one more write.
\<close>

theorem recompute_json_twice_counterexample:
  "writes (snd (recompute_json example_collaborators [2] False
              (snd (recompute_json example_collaborators [2] False example_env))))
     = writes (snd (recompute_json example_collaborators [2] False example_env))
         @ [([2], no_vals\<lparr>v_sync_state := Some To_be_checked\<rparr>)]"
  by (simp add: writes_recompute_json table_recompute_json loop_pairs_def works_of_def mapped_def
        unique_def pairs_of_def failing_def storing_def stores_def to_be_checked_vals_def example_defs)

theorem recompute_json_twice_witness:
  "distinct [1, 2, 3, 4 :: nat] \<and> mapper_independent example_collaborators
   \<and> table (snd (recompute_json example_collaborators [1, 2, 3, 4] False
                 (snd (recompute_json example_collaborators [1, 2, 3, 4] False example_env))))
       = table (snd (recompute_json example_collaborators [1, 2, 3, 4] False example_env))"
proof -
  have d: "distinct [1, 2, 3, 4 :: nat]" by simp
  have m: "mapper_independent example_collaborators"
    by (simp add: mapper_independent_def example_collaborators_def)
  from recompute_json_twice [OF d m, of example_env] d m show ?thesis by blast
qed

subsection \<open>Statements on the partition\<close>

lemma length_filter_distinct_eq:
  "distinct xs \<Longrightarrow> x \<in> set xs \<Longrightarrow> length (filter (\<lambda>y. y = x) xs) = 1"
proof (induction xs)
  case Nil
  then show ?case by simp
next
  case (Cons a xs)
  show ?case
  proof (cases "a = x")
    case True
    then have "x \<notin> set xs" using Cons.prems by simp
    then have "filter (\<lambda>y. y = x) xs = []" by (auto simp: filter_empty_conv)
    with True show ?thesis by simp
  next
    case False
    then show ?thesis using Cons by simp
  qed
qed

lemma length_filter_grid:
  assumes "distinct ks" and "distinct js" and "k0 \<in> set ks" and "j0 \<in> set js"
    and "\<And>k j. P (W k j) \<longleftrightarrow> k = k0 \<and> j = j0"
  shows "length (filter P (concat (map (\<lambda>k. map (W k) js) ks))) = 1"
proof -
  have inner: "length (filter P (map (W k) js)) = (if k = k0 then 1 else 0)" for k
  proof -
    have "filter P (map (W k) js) = map (W k) (filter (\<lambda>j. k = k0 \<and> j = j0) js)"
      by (simp add: filter_map comp_def assms(5))
    then show ?thesis
      using length_filter_distinct_eq [OF assms(2,4)] by (cases "k = k0") simp_all
  qed
  have "length (filter P (concat (map (\<lambda>k. map (W k) js) ks')))
          = length (filter (\<lambda>k. k = k0) ks')" for ks'
  proof (induction ks')
    case Nil
    show ?case by simp
  next
    case (Cons a ks')
    have "length (filter P (concat (map (\<lambda>k. map (W k) js) (a # ks'))))
            = length (filter P (map (W a) js)) + length (filter P (concat (map (\<lambda>k. map (W k) js) ks')))"
      by simp
    also have "\<dots> = (if a = k0 then 1 else 0) + length (filter (\<lambda>k. k = k0) ks')"
      by (simp only: inner Cons.IH)
    finally show ?case by simp
  qed
  then show ?thesis
    using length_filter_distinct_eq [OF assms(1,3)] by simp
qed

text \<open>
  Claim C2, as the code has it. Every binding of the input recordset that exists and whose
  \<open>active\<close> flag matches the filter is in exactly one yielded group, and every record of a
  yielded group is such a binding. One group is yielded for every pair of a backend and an
  index that occur among the existing bindings of the recordset, whether or not it has
  records.
\<close>

theorem work_by_index_partition:
  assumes "i \<in> set self" and "table env i = Some b" and "active b = act"
  shows "length (filter (\<lambda>w. i \<in> set (work_records w)) (yielded_works C self act env)) = 1
       \<and> (\<forall>w\<in>set (yielded_works C self act env).
            set (work_records w) \<subseteq> {j \<in> set self. \<exists>b'. table env j = Some b' \<and> active b' = act})
       \<and> length (yielded_works C self act env)
           = length (mapped (se_backend_id C) (table env) (exists_rs (table env) self))
             * length (mapped index_id (table env) (exists_rs (table env) self))"
proof (intro conjI)
  let ?T = "table env"
  let ?S = "exists_rs ?T self"
  let ?bks = "mapped (se_backend_id C) ?T ?S"
  let ?ixs = "mapped index_id ?T ?S"
  let ?W = "\<lambda>bk ix. work_on C bk (group_bindings C ?T ?S act bk ix) ix"
  have ws: "yielded_works C self act env = concat (map (\<lambda>bk. map (?W bk) ?ixs) ?bks)"
    by (simp add: yielded_works_eq works_of_def Let_def)
  have iS: "i \<in> set ?S" using assms by (simp add: set_exists_rs)
  have bk: "se_backend_id C b \<in> set ?bks" and ix: "index_id b \<in> set ?ixs"
    using iS assms(2) by (auto simp: set_mapped)
  have P: "i \<in> set (work_records (?W k j)) \<longleftrightarrow> k = se_backend_id C b \<and> j = index_id b" for k j
    using iS assms by (auto simp: work_on_def set_group_bindings)
  show "length (filter (\<lambda>w. i \<in> set (work_records w)) (yielded_works C self act env)) = 1"
    unfolding ws
    by (rule length_filter_grid [where ?k0.0 = "se_backend_id C b" and ?j0.0 = "index_id b"])
       (simp_all add: bk ix P)
  show "\<forall>w\<in>set (yielded_works C self act env).
            set (work_records w) \<subseteq> {j \<in> set self. \<exists>b'. table env j = Some b' \<and> active b' = act}"
    using set_works_records [of C ?T self act]
    by (auto simp: yielded_works_eq)
  have "length (concat (map (\<lambda>bk. map (?W bk) ?ixs) bks')) = length bks' * length ?ixs" for bks'
    by (induction bks') simp_all
  then show "length (yielded_works C self act env) = length ?bks * length ?ixs"
    by (simp add: ws)
qed

text \<open>
  Claim C2 as stated fails on its last part: groups without records are yielded. For the
  active bindings 1 (index 1 of backend 0) and 3 (index 12 of backend 1), the groups of the
  pairs (backend 0, index 12) and (backend 1, index 1) are yielded with no record.
\<close>

theorem work_by_index_empty_group_counterexample:
  "yielded_works example_collaborators [1, 3] True example_env
     = [\<lparr>work_collection = 0, work_records = [1], work_index = 1\<rparr>,
        \<lparr>work_collection = 0, work_records = [], work_index = 12\<rparr>,
        \<lparr>work_collection = 1, work_records = [], work_index = 1\<rparr>,
        \<lparr>work_collection = 1, work_records = [3], work_index = 12\<rparr>]"
  by (simp add: yielded_works_eq works_of_def mapped_def unique_def example_defs)

theorem work_by_index_partition_witness:
  "table example_env 3 = Some (example_binding 12 Done (Some 3) True)
   \<and> length (filter (\<lambda>w. 3 \<in> set (work_records w))
        (yielded_works example_collaborators [1, 3] True example_env)) = 1"
proof -
  have r: "table example_env 3 = Some (example_binding 12 Done (Some 3) True)"
    by (simp add: example_env_def)
  have a: "active (example_binding 12 Done (Some 3) True) = True"
    by (simp add: example_binding_def)
  have i: "(3::nat) \<in> set [1, 3]" by simp
  from work_by_index_partition [OF i r a, of example_collaborators] r show ?thesis by blast
qed

subsection \<open>Statements on \<open>synchronize\<close>\<close>

lemma fold_export_work:
  "fold (\<lambda>work s. case s of (env, ids) \<Rightarrow> (run work env, ids @ work_records work)) ws (e, ids)
     = (fold run ws e, ids @ concat (map work_records ws))"
  by (induction ws arbitrary: e ids) simp_all

lemma keeps_static_pass:
  assumes "keeps_partition run"
  shows "keeps_static (\<lambda>work s. case s of (env, ids :: nat list) \<Rightarrow> (run work env, ids @ work_records work))"
  using assms unfolding keeps_static_def keeps_partition_def by (simp add: split_def)

lemma fold_keeps_partition:
  "keeps_partition run \<Longrightarrow> static (table (fold run ws e)) = static (table e)"
  by (induction ws arbitrary: e) (simp_all add: keeps_partition_def)

lemma pass_result:
  assumes "keeps_partition run"
  shows "work_by_index C (\<lambda>work s. case s of (env, ids) \<Rightarrow> (run work env, ids @ work_records work))
           self act (e, [])
         = (fold run (works_of C (table e) self act) e,
            concat (map work_records (works_of C (table e) self act)))"
  by (simp add: work_by_index_fold [OF keeps_static_pass [OF assms]] fold_export_work)

text \<open>
  Claim C8. Let the exporter and the deleter leave alone what the partition reads (which
  bindings exist, their index and their \<open>active\<close> flag). Then \<open>synchronize\<close> runs the
  exporter once for every group yielded for the active bindings, in the order of the
  groups, then the deleter once for every group yielded for the inactive bindings; the
  records handed to the exporter are, as a multiset, exactly the existing active bindings of
  the recordset and those handed to the deleter exactly the existing inactive ones; and the
  report lists the ids handed to the exporter and the ids handed to the deleter.
\<close>

theorem synchronize_passes:
  assumes "keeps_partition (exporter_run C)" and "keeps_partition (deleter_run C)"
  shows "synchronize C self env
           = (''Exported ids : '' @ str_ids (concat (map work_records (yielded_works C self True env)))
                @ newline
                @ ''Deleted ids : '' @ str_ids (concat (map work_records (yielded_works C self False env))),
              fold (deleter_run C) (yielded_works C self False env)
                (fold (exporter_run C) (yielded_works C self True env) env))
       \<and> mset (concat (map work_records (yielded_works C self True env)))
           = mset (filter (\<lambda>i. case table env i of None \<Rightarrow> False | Some b \<Rightarrow> active b) self)
       \<and> mset (concat (map work_records (yielded_works C self False env)))
           = mset (filter (\<lambda>i. case table env i of None \<Rightarrow> False | Some b \<Rightarrow> \<not> active b) self)"
proof (intro conjI)
  let ?ew = "works_of C (table env) self True"
  let ?env1 = "fold (exporter_run C) ?ew env"
  have e: "export_work C = (\<lambda>work s. case s of (env, ids) \<Rightarrow> (exporter_run C work env, ids @ work_records work))"
    by (intro ext) (simp add: export_work_def)
  have d: "delete_work C = (\<lambda>work s. case s of (env, ids) \<Rightarrow> (deleter_run C work env, ids @ work_records work))"
    by (intro ext) (simp add: delete_work_def)
  have p1: "work_by_index C (export_work C) self True (env, [])
              = (?env1, concat (map work_records ?ew))"
    unfolding e by (rule pass_result [OF assms(1)])
  have st: "static (table ?env1) = static (table env)"
    by (rule fold_keeps_partition [OF assms(1)])
  have dw: "works_of C (table ?env1) self False = works_of C (table env) self False"
    by (rule works_of_static [OF st])
  have p2: "work_by_index C (delete_work C) self False (?env1, [])
              = (fold (deleter_run C) (works_of C (table env) self False) ?env1,
                 concat (map work_records (works_of C (table env) self False)))"
    unfolding d using pass_result [OF assms(2), of C self False ?env1] by (simp add: dw)
  show "synchronize C self env
           = (''Exported ids : '' @ str_ids (concat (map work_records (yielded_works C self True env)))
                @ newline
                @ ''Deleted ids : '' @ str_ids (concat (map work_records (yielded_works C self False env))),
              fold (deleter_run C) (yielded_works C self False env)
                (fold (exporter_run C) (yielded_works C self True env) env))"
    by (simp add: synchronize_def p1 p2 yielded_works_eq)
  show "mset (concat (map work_records (yielded_works C self True env)))
           = mset (filter (\<lambda>i. case table env i of None \<Rightarrow> False | Some b \<Rightarrow> active b) self)"
  proof -
    have "(\<lambda>i. case table env i of None \<Rightarrow> False | Some b \<Rightarrow> active b = True)
            = (\<lambda>i. case table env i of None \<Rightarrow> False | Some b \<Rightarrow> active b)"
      by (auto split: option.splits)
    then show ?thesis
      using mset_works_records [of C "table env" self True] by (simp only: yielded_works_eq)
  qed
  show "mset (concat (map work_records (yielded_works C self False env)))
           = mset (filter (\<lambda>i. case table env i of None \<Rightarrow> False | Some b \<Rightarrow> \<not> active b) self)"
  proof -
    have "(\<lambda>i. case table env i of None \<Rightarrow> False | Some b \<Rightarrow> active b = False)
            = (\<lambda>i. case table env i of None \<Rightarrow> False | Some b \<Rightarrow> \<not> active b)"
      by (auto split: option.splits)
    then show ?thesis
      using mset_works_records [of C "table env" self False] by (simp only: yielded_works_eq)
  qed
qed

theorem synchronize_passes_witness:
  "keeps_partition (exporter_run example_collaborators)
   \<and> keeps_partition (deleter_run example_collaborators)
   \<and> fst (synchronize example_collaborators [1, 2, 3, 4] example_env)
       = ''Exported ids : [1, 2, 3]'' @ newline @ ''Deleted ids : [4]''
   \<and> map (\<lambda>i. map_option sync_state (table (snd (synchronize example_collaborators [1, 2, 3, 4] example_env)) i))
       [1, 2, 3, 4] = [Some Done, Some Done, Some Done, Some Done]"
proof -
  have k1: "keeps_partition (exporter_run example_collaborators)"
    unfolding keeps_partition_def
    by (intro allI ext)
       (simp add: example_collaborators_def static_def table_orm_write no_vals_def option.map_comp comp_def)
  have k2: "keeps_partition (deleter_run example_collaborators)"
    by (simp add: keeps_partition_def example_collaborators_def)
  have ew: "yielded_works example_collaborators [1, 2, 3, 4] True example_env
     = [\<lparr>work_collection = 0, work_records = [1, 2], work_index = 1\<rparr>,
        \<lparr>work_collection = 0, work_records = [], work_index = 12\<rparr>,
        \<lparr>work_collection = 1, work_records = [], work_index = 1\<rparr>,
        \<lparr>work_collection = 1, work_records = [3], work_index = 12\<rparr>]"
    by (simp add: yielded_works_eq works_of_def mapped_def unique_def example_defs)
  have dw: "yielded_works example_collaborators [1, 2, 3, 4] False example_env
     = [\<lparr>work_collection = 0, work_records = [4], work_index = 1\<rparr>,
        \<lparr>work_collection = 0, work_records = [], work_index = 12\<rparr>,
        \<lparr>work_collection = 1, work_records = [], work_index = 1\<rparr>,
        \<lparr>work_collection = 1, work_records = [], work_index = 12\<rparr>]"
    by (simp add: yielded_works_eq works_of_def mapped_def unique_def example_defs)
  from synchronize_passes [OF k1 k2, of "[1, 2, 3, 4]" example_env]
  have s: "synchronize example_collaborators [1, 2, 3, 4] example_env
           = (''Exported ids : '' @ str_ids (concat (map work_records
                  (yielded_works example_collaborators [1, 2, 3, 4] True example_env)))
                @ newline
                @ ''Deleted ids : '' @ str_ids (concat (map work_records
                  (yielded_works example_collaborators [1, 2, 3, 4] False example_env))),
              fold (deleter_run example_collaborators)
                (yielded_works example_collaborators [1, 2, 3, 4] False example_env)
                (fold (exporter_run example_collaborators)
                   (yielded_works example_collaborators [1, 2, 3, 4] True example_env) example_env))"
    by blast
  have r: "fst (synchronize example_collaborators [1, 2, 3, 4] example_env)
       = ''Exported ids : [1, 2, 3]'' @ newline @ ''Deleted ids : [4]''"
    unfolding s ew dw by (simp add: str_ids_def)
  have t: "map (\<lambda>i. map_option sync_state (table (snd (synchronize example_collaborators [1, 2, 3, 4] example_env)) i))
       [1, 2, 3, 4] = [Some Done, Some Done, Some Done, Some Done]"
    unfolding s ew dw
    by (simp add: example_collaborators_def table_orm_write example_env_def example_binding_def
          no_vals_def apply_vals_def)
  show ?thesis using k1 k2 r t by blast
qed

end
